theory Spec2Isabelle
  imports Main "HOL-Library.Sublist" "HOL-Library.Log_Nat"
begin

section \<open>Characters and strings of the Python runtime\<close>

text \<open>
  A Python \<open>str\<close> is a sequence of Unicode code points, so a character is modelled by its
  code point and a string by a list of code points. The character database of the runtime
  (which code points are whitespace, word characters, and how they change case) is not part
  of \<open>app.py\<close>. The whitespace table below is the complete one of \<open>str.isspace\<close>, which
  \<open>str.split()\<close> and the regular expression class \<open>\s\<close> both use. The other tables
  (some 1400 case pairs, and the alphanumeric code points of every script) differ between
  the versions of Python and are taken as they come: the functions of \<open>app.py\<close> get them
  in a record \<open>py_runtime\<close>, and what is proved of them holds for every runtime.
\<close>

type_synonym uchar = nat
type_synonym ustring = "uchar list"

definition U :: "string \<Rightarrow> ustring" where
  "U s = map of_char s"

abbreviation NL :: uchar where "NL \<equiv> 10"
abbreviation SPACE :: uchar where "SPACE \<equiv> 32"
abbreviation HASH :: uchar where "HASH \<equiv> 35"
abbreviation STAR :: uchar where "STAR \<equiv> 42"
abbreviation HYPHEN :: uchar where "HYPHEN \<equiv> 45"
abbreviation UNDERSCORE :: uchar where "UNDERSCORE \<equiv> 95"

definition is_space :: "uchar \<Rightarrow> bool" where
  "is_space c \<longleftrightarrow>
     (9 \<le> c \<and> c \<le> 13) \<or> (28 \<le> c \<and> c \<le> 32) \<or> c = 133 \<or> c = 160 \<or> c = 5760 \<or>
     (8192 \<le> c \<and> c \<le> 8202) \<or> c = 8232 \<or> c = 8233 \<or> c = 8239 \<or> c = 8287 \<or> c = 12288"

text \<open>The letters \<open>U+0105 U+0107 U+0119 U+0142 U+0144 U+00F3 U+015B U+017A U+017C\<close>, in the
  order of the source's class, and their capitals.\<close>

definition polish_lower :: "uchar list" where
  "polish_lower = [261, 263, 281, 322, 324, 243, 347, 378, 380]"

definition polish_upper :: "uchar list" where
  "polish_upper = [260, 262, 280, 321, 323, 211, 346, 377, 379]"

text \<open>
  What the functions of \<open>app.py\<close> ask of the runtime: \<open>str.lower\<close> and \<open>str.capitalize\<close>
  (functions of the whole string: the lower case of a capital sigma depends on its
  neighbours), \<open>str.isalnum\<close> of a character, which with the underscore makes the class
  \<open>\w\<close>, and whether a character of the text matches a literal character of a pattern
  under \<open>re.IGNORECASE\<close> (\<open>ignorecase rt c d\<close>: the literal \<open>c\<close> matches \<open>d\<close>).
\<close>

record py_runtime =
  str_lower :: "ustring \<Rightarrow> ustring"
  str_capitalize :: "ustring \<Rightarrow> ustring"
  isalnum :: "uchar \<Rightarrow> bool"
  ignorecase :: "uchar \<Rightarrow> uchar \<Rightarrow> bool"

text \<open>The class \<open>\w\<close> of a \<open>str\<close> pattern: the alphanumeric characters and the underscore.\<close>

definition is_word :: "py_runtime \<Rightarrow> uchar \<Rightarrow> bool" where
  "is_word rt c \<longleftrightarrow> isalnum rt c \<or> c = UNDERSCORE"


text \<open>\<open>str.split()\<close> without a separator: the maximal runs of characters that are not
  whitespace. \<open>cur\<close> is the word being read.\<close>

fun split_ws :: "ustring \<Rightarrow> ustring \<Rightarrow> ustring list" where
  "split_ws cur [] = (if cur = [] then [] else [cur])"
| "split_ws cur (c # s) =
     (if is_space c then (if cur = [] then split_ws [] s else cur # split_ws [] s)
      else split_ws (cur @ [c]) s)"

definition py_split :: "ustring \<Rightarrow> ustring list" where
  "py_split s = split_ws [] s"

fun py_join :: "ustring \<Rightarrow> ustring list \<Rightarrow> ustring" where
  "py_join sep [] = []"
| "py_join sep [x] = x"
| "py_join sep (x # y # ys) = x @ sep @ py_join sep (y # ys)"

text \<open>\<open>str.replace(old, new)\<close>: the occurrences of \<open>old\<close> from the left, none overlapping
  another. With an empty \<open>old\<close> Python puts \<open>new\<close> before every character and at the end.\<close>

function replace_from :: "ustring \<Rightarrow> ustring \<Rightarrow> ustring \<Rightarrow> ustring" where
  "replace_from old new [] = []"
| "replace_from old new (c # s) =
     (if old \<noteq> [] \<and> prefix old (c # s)
      then new @ replace_from old new (drop (length old) (c # s))
      else c # replace_from old new s)"
  by pat_completeness auto
termination
  by (relation "measure (\<lambda>(old, new, s). length s)") auto

definition py_replace :: "ustring \<Rightarrow> ustring \<Rightarrow> ustring \<Rightarrow> ustring" where
  "py_replace old new s =
     (if old = [] then new @ concat (map (\<lambda>c. c # new) s) else replace_from old new s)"

text \<open>\<open>re.sub\<close> of a pattern that is one character class: every character of the class
  is replaced.\<close>

fun re_sub_class :: "(uchar \<Rightarrow> bool) \<Rightarrow> ustring \<Rightarrow> ustring \<Rightarrow> ustring" where
  "re_sub_class cls repl [] = []"
| "re_sub_class cls repl (c # s) =
     (if cls c then repl @ re_sub_class cls repl s else c # re_sub_class cls repl s)"

section \<open>The title of the output file\<close>

text \<open>\<open>generate_pdf\<close> and \<open>generate_zip\<close> both compute
  \<^verbatim>\<open>safe_title = re.sub(r'[^\w\s-]', '', request.title).replace(' ', '_')\<close>.\<close>

definition not_word_space_hyphen :: "py_runtime \<Rightarrow> uchar \<Rightarrow> bool" where
  "not_word_space_hyphen rt c \<longleftrightarrow> \<not> (is_word rt c \<or> is_space c \<or> c = HYPHEN)"

definition safe_title :: "py_runtime \<Rightarrow> ustring \<Rightarrow> ustring" where
  "safe_title rt title =
     py_replace [SPACE] [UNDERSCORE] (re_sub_class (not_word_space_hyphen rt) [] title)"

text \<open>The sanitisation as the specification words it: the same characters are stripped,
  then each maximal run of whitespace becomes one underscore.\<close>

fun collapse_ws :: "bool \<Rightarrow> ustring \<Rightarrow> ustring" where
  "collapse_ws in_run [] = []"
| "collapse_ws in_run (c # s) =
     (if is_space c then (if in_run then collapse_ws True s else UNDERSCORE # collapse_ws True s)
      else c # collapse_ws False s)"

definition spec_sanitize :: "py_runtime \<Rightarrow> ustring \<Rightarrow> ustring" where
  "spec_sanitize rt title =
     collapse_ws False (filter (\<lambda>c. is_word rt c \<or> is_space c \<or> c = HYPHEN) title)"

section \<open>Title casing\<close>

text \<open>\<open>PROPER_NOUNS\<close>, the registry of names that keep their own casing.\<close>

definition PROPER_NOUNS :: "ustring list" where
  "PROPER_NOUNS = map U
     [''Notion'', ''Trello'', ''Asana'', ''Google'', ''Zapier'', ''YouTube'',
      ''Instagram'', ''TikTok'', ''Facebook'', ''LinkedIn'', ''Twitter'',
      ''Excel'', ''Tableau'', ''PowerBI'', ''Buffer'', ''HubSpot'',
      ''ICE'', ''EVP'', ''SOP'', ''AI'', ''API'', ''DeepL'', ''FOTZ'']"

text \<open>\<^verbatim>\<open>is_proper = any(pn.lower() == word.lower() for pn in PROPER_NOUNS)\<close>\<close>

definition is_proper :: "py_runtime \<Rightarrow> ustring \<Rightarrow> bool" where
  "is_proper rt word \<longleftrightarrow> list_ex (\<lambda>pn. str_lower rt pn = str_lower rt word) PROPER_NOUNS"

text \<open>The inner loop of \<open>process_title\<close>: the first registry entry that equals the word up
  to case is appended to \<open>result\<close>, and the loop is left.\<close>

fun append_proper ::
  "py_runtime \<Rightarrow> ustring \<Rightarrow> ustring list \<Rightarrow> ustring list \<Rightarrow> ustring list" where
  "append_proper rt word [] result = result"
| "append_proper rt word (pn # pns) result =
     (if str_lower rt pn = str_lower rt word then result @ [pn]
      else append_proper rt word pns result)"

text \<open>The loop over \<open>words[1:]\<close>.\<close>

fun title_words :: "py_runtime \<Rightarrow> ustring list \<Rightarrow> ustring list \<Rightarrow> ustring list" where
  "title_words rt [] result = result"
| "title_words rt (word # ws) result =
     title_words rt ws
       (if is_proper rt word then append_proper rt word PROPER_NOUNS result
        else result @ [str_lower rt word])"

text \<open>\<open>process_title\<close>, on the groups of a match: \<open>whole\<close> is group 0, \<open>pfx\<close> group 1 (the
  marker) and \<open>title\<close> group 2.\<close>

definition process_title :: "py_runtime \<Rightarrow> ustring \<Rightarrow> ustring \<Rightarrow> ustring \<Rightarrow> ustring" where
  "process_title rt whole pfx title =
     (case py_split title of
        [] \<Rightarrow> whole
      | w # ws \<Rightarrow> pfx @ [SPACE] @ py_join [SPACE] (title_words rt ws [str_capitalize rt w]))"

text \<open>
  The pattern \<^verbatim>\<open>^(#{2,4})\s+(.+)$\<close> under \<open>re.MULTILINE\<close>, as the backtracking matcher
  of \<open>re\<close> runs it at a position where \<open>^\<close> holds. A greedy repetition of a one-character
  item takes as many characters as it can and gives them back one at a time, so the
  candidates of each repetition are its counts from the largest down; \<open>first_some\<close> takes
  the first candidate whose continuation matches. \<open>.\<close> is every character but the
  newline, \<open>\s\<close> is whitespace (the newline included), and \<open>$\<close> holds at the end of the
  text and before a newline. A match is the triple of the lengths of the marker, of the
  whitespace and of the title.
\<close>

fun first_some :: "('a \<Rightarrow> 'b option) \<Rightarrow> 'a list \<Rightarrow> 'b option" where
  "first_some f [] = None"
| "first_some f (x # xs) = (case f x of Some y \<Rightarrow> Some y | None \<Rightarrow> first_some f xs)"

definition greedy :: "nat \<Rightarrow> nat \<Rightarrow> nat list" where
  "greedy lo hi = rev [lo..<Suc hi]"

definition run :: "(uchar \<Rightarrow> bool) \<Rightarrow> ustring \<Rightarrow> nat" where
  "run P s = length (takeWhile P s)"

definition at_eol :: "ustring \<Rightarrow> bool" where
  "at_eol s = (case s of [] \<Rightarrow> True | c # _ \<Rightarrow> c = NL)"

definition match_heading :: "ustring \<Rightarrow> (nat \<times> nat \<times> nat) option" where
  "match_heading s =
     first_some (\<lambda>k.
       first_some (\<lambda>j.
         first_some (\<lambda>n. if at_eol (drop (k + j + n) s) then Some (k, j, n) else None)
           (greedy 1 (run (\<lambda>c. c \<noteq> NL) (drop (k + j) s))))
         (greedy 1 (run is_space (drop k s))))
       (greedy 2 (min 4 (run (\<lambda>c. c = HASH) s)))"

text \<open>\<open>^\<close> holds at the start of the text and after a newline; \<open>prev\<close> is the character
  before the position.\<close>

definition at_bol :: "uchar option \<Rightarrow> bool" where
  "at_bol prev = (case prev of None \<Rightarrow> True | Some c \<Rightarrow> c = NL)"

lemma first_some_SomeD: "first_some f xs = Some y \<Longrightarrow> \<exists>x \<in> set xs. f x = Some y"
  by (induction xs) (auto split: option.splits)

lemma match_heading_length:
  assumes "match_heading s = Some (k, j, n)"
  shows "2 \<le> k" and "k \<le> length s"
proof -
  from assms obtain k' where k': "k' \<in> set (greedy 2 (min 4 (run (\<lambda>c. c = HASH) s)))"
    and in1: "first_some (\<lambda>j.
         first_some (\<lambda>n. if at_eol (drop (k' + j + n) s) then Some (k', j, n) else None)
           (greedy 1 (run (\<lambda>c. c \<noteq> NL) (drop (k' + j) s))))
         (greedy 1 (run is_space (drop k' s))) = Some (k, j, n)"
    unfolding match_heading_def by (blast dest: first_some_SomeD)
  from in1 obtain j' where
    "first_some (\<lambda>n. if at_eol (drop (k' + j' + n) s) then Some (k', j', n) else None)
           (greedy 1 (run (\<lambda>c. c \<noteq> NL) (drop (k' + j') s))) = Some (k, j, n)"
    by (blast dest: first_some_SomeD)
  then have "k' = k"
    by (auto dest!: first_some_SomeD split: if_splits)
  with k' have "2 \<le> k" and "k \<le> run (\<lambda>c. c = HASH) s"
    by (auto simp: greedy_def)
  moreover have "run (\<lambda>c. c = HASH) s \<le> length s"
    by (simp add: run_def length_takeWhile_le)
  ultimately show "2 \<le> k" and "k \<le> length s" by auto
qed

text \<open>
  \<^verbatim>\<open>re.sub(pattern, process_title, content, flags=re.MULTILINE)\<close>: the text is read from
  the left; where the pattern matches, the match is replaced and reading goes on behind
  it; elsewhere the character is copied.
\<close>

function sub_headings :: "py_runtime \<Rightarrow> uchar option \<Rightarrow> ustring \<Rightarrow> ustring" where
  "sub_headings rt prev s =
     (case (if at_bol prev then match_heading s else None) of
        Some (k, j, n) \<Rightarrow>
          process_title rt (take (k + j + n) s) (take k s) (take n (drop (k + j) s))
            @ sub_headings rt (Some (last (take (k + j + n) s))) (drop (k + j + n) s)
      | None \<Rightarrow> (case s of [] \<Rightarrow> [] | c # s' \<Rightarrow> c # sub_headings rt (Some c) s'))"
  by pat_completeness auto
termination
proof (relation "measure (\<lambda>(rt, prev, s). length s)")
  show "wf (measure (\<lambda>(rt, prev, s). length s))" by simp
next
  fix rt :: py_runtime and prev :: "uchar option" and s :: ustring and x2 x y x2a xa ya
  assume "(if at_bol prev then match_heading s else None) = Some x2"
    and "(x, y) = x2" and "(xa, ya) = y"
  then have m: "match_heading s = Some (x, xa, ya)"
    by (auto split: if_splits)
  from match_heading_length [OF m] have "0 < length s" and "0 < x" by auto
  then show "((rt, Some (last (take (x + xa + ya) s)), drop (x + xa + ya) s), rt, prev, s)
      \<in> measure (\<lambda>(rt, prev, s). length s)"
    by simp
next
  fix rt :: py_runtime and prev :: "uchar option" and s :: ustring and x21 x22
  assume "s = x21 # x22"
  then show "((rt, Some x21, x22), rt, prev, s) \<in> measure (\<lambda>(rt, prev, s). length s)" by simp
qed

definition standardize_titles :: "py_runtime \<Rightarrow> ustring \<Rightarrow> ustring" where
  "standardize_titles rt content = sub_headings rt None content"

text \<open>The titles (group 2) of the matches \<open>re.sub\<close> finds in a text, read as \<open>sub_headings\<close>
  reads it.\<close>

function heading_titles :: "uchar option \<Rightarrow> ustring \<Rightarrow> ustring list" where
  "heading_titles prev s =
     (case (if at_bol prev then match_heading s else None) of
        Some (k, j, n) \<Rightarrow>
          take n (drop (k + j) s)
            # heading_titles (Some (last (take (k + j + n) s))) (drop (k + j + n) s)
      | None \<Rightarrow> (case s of [] \<Rightarrow> [] | c # s' \<Rightarrow> heading_titles (Some c) s'))"
  by pat_completeness auto
termination
proof (relation "measure (\<lambda>(prev, s). length s)")
  show "wf (measure (\<lambda>(prev, s). length s))" by simp
next
  fix prev :: "uchar option" and s :: ustring and x2 x y x2a xa ya
  assume "(if at_bol prev then match_heading s else None) = Some x2"
    and "(x, y) = x2" and "(xa, ya) = y"
  then have m: "match_heading s = Some (x, xa, ya)"
    by (auto split: if_splits)
  from match_heading_length [OF m] have "0 < length s" and "0 < x" by auto
  then show "((Some (last (take (x + xa + ya) s)), drop (x + xa + ya) s), prev, s)
      \<in> measure (\<lambda>(prev, s). length s)"
    by simp
next
  fix prev :: "uchar option" and s :: ustring and x21 x22
  assume "s = x21 # x22"
  then show "((Some x21, x22), prev, s) \<in> measure (\<lambda>(prev, s). length s)" by simp
qed

definition title_after :: "ustring \<Rightarrow> nat \<Rightarrow> nat \<Rightarrow> (nat \<times> nat \<times> nat) option" where
  "title_after s h j =
     (if 1 \<le> run (\<lambda>c. c \<noteq> NL) (drop (h + j) s)
      then Some (h, j, run (\<lambda>c. c \<noteq> NL) (drop (h + j) s)) else None)"

abbreviation hashes :: "ustring \<Rightarrow> nat" where
  "hashes s \<equiv> run (\<lambda>c. c = HASH) s"

abbreviation spaces_after :: "ustring \<Rightarrow> nat" where
  "spaces_after s \<equiv> run is_space (drop (hashes s) s)"

definition wordlike :: "ustring \<Rightarrow> bool" where
  "wordlike w \<longleftrightarrow> w \<noteq> [] \<and> (\<forall>c \<in> set w. \<not> is_space c)"

definition canonical_word :: "py_runtime \<Rightarrow> ustring \<Rightarrow> ustring" where
  "canonical_word rt w =
     (case find (\<lambda>pn. str_lower rt pn = str_lower rt w) PROPER_NOUNS of
        Some pn \<Rightarrow> pn
      | None \<Rightarrow> str_lower rt w)"

definition heading_line :: "ustring \<Rightarrow> (nat \<times> ustring) option" where
  "heading_line l =
     (let k = run (\<lambda>c. c = HASH) l; w = run is_space (drop k l); title = drop (k + w) l
      in if 2 \<le> k \<and> k \<le> 4 \<and> 1 \<le> w \<and> title \<noteq> [] then Some (k, title) else None)"

definition title_line :: "py_runtime \<Rightarrow> ustring \<Rightarrow> ustring" where
  "title_line rt l =
     (case heading_line l of
        None \<Rightarrow> l
      | Some (k, title) \<Rightarrow>
          (case py_split title of
             [] \<Rightarrow> l
           | w # ws \<Rightarrow>
               replicate k HASH @ [SPACE] @
                 py_join [SPACE] (str_capitalize rt w # map (canonical_word rt) ws)))"

definition bare_marker :: "ustring \<Rightarrow> bool" where
  "bare_marker l \<longleftrightarrow>
     (let k = run (\<lambda>c. c = HASH) l in 2 \<le> k \<and> k \<le> 4 \<and> list_all is_space (drop k l))"

text \<open>The casing of the first word as the specification words it: the first letter in
  upper case, the others as given; and the line it makes of a heading.\<close>

definition spec_capitalize :: "py_runtime \<Rightarrow> ustring \<Rightarrow> ustring" where
  "spec_capitalize rt w = (case w of [] \<Rightarrow> [] | c # cs \<Rightarrow> str_capitalize rt [c] @ cs)"

definition spec_title_line :: "py_runtime \<Rightarrow> ustring \<Rightarrow> ustring" where
  "spec_title_line rt l =
     (case heading_line l of
        None \<Rightarrow> l
      | Some (k, title) \<Rightarrow>
          (case py_split title of
             [] \<Rightarrow> l
           | w # ws \<Rightarrow>
               replicate k HASH @ [SPACE] @
                 py_join [SPACE] (spec_capitalize rt w # map (canonical_word rt) ws)))"

text \<open>A title whose words the transform leaves as they are once it has made them: the
  first word capitalised and every later word in its canonical form are words again, and
  capitalising or canonising them once more changes nothing.\<close>

definition stable_title :: "py_runtime \<Rightarrow> ustring \<Rightarrow> bool" where
  "stable_title rt t \<longleftrightarrow>
     (case py_split t of
        [] \<Rightarrow> True
      | w # ws \<Rightarrow>
          wordlike (str_capitalize rt w) \<and>
          str_capitalize rt (str_capitalize rt w) = str_capitalize rt w \<and>
          list_all (\<lambda>x. wordlike (canonical_word rt x) \<and>
                        canonical_word rt (canonical_word rt x) = canonical_word rt x) ws)"


section \<open>Keyword emphasis\<close>

text \<open>\<open>str.split(sep)\<close> with a separator: the text between the occurrences of \<open>sep\<close>, read
  from the left. The source's separator is the constant of two newlines; Python refuses
  an empty separator, for which this function gives the text as its one piece.\<close>

function split_sep :: "ustring \<Rightarrow> ustring \<Rightarrow> ustring \<Rightarrow> ustring list" where
  "split_sep sep cur [] = [cur]"
| "split_sep sep cur (c # s) =
     (if sep \<noteq> [] \<and> prefix sep (c # s)
      then cur # split_sep sep [] (drop (length sep) (c # s))
      else split_sep sep (cur @ [c]) s)"
  by pat_completeness auto
termination
  by (relation "measure (\<lambda>(sep, cur, s). length s)") auto

definition py_split_sep :: "ustring \<Rightarrow> ustring \<Rightarrow> ustring list" where
  "py_split_sep sep s = split_sep sep [] s"

text \<open>\<open>re.escape(keyword)\<close> matches the keyword, character by character, each under
  \<open>re.IGNORECASE\<close>.\<close>

definition ci_prefix :: "py_runtime \<Rightarrow> ustring \<Rightarrow> ustring \<Rightarrow> bool" where
  "ci_prefix rt keyword s \<longleftrightarrow>
     length keyword \<le> length s \<and> list_all2 (ignorecase rt) keyword (take (length keyword) s)"

text \<open>The class \<^verbatim>\<open>[a-z\<close>...\<^verbatim>\<open>]\<close> of the small Latin and Polish letters, under
  \<open>re.IGNORECASE\<close>: these letters, their capitals, and the four characters whose case
  folding meets them, U+0130 and U+0131 (dotted and dotless i), U+017F (long s) and
  U+212A (the Kelvin sign).\<close>

definition suffix_letter :: "uchar \<Rightarrow> bool" where
  "suffix_letter c \<longleftrightarrow>
     (65 \<le> c \<and> c \<le> 90) \<or> (97 \<le> c \<and> c \<le> 122) \<or>
     c \<in> set polish_lower \<or> c \<in> set polish_upper \<or>
     c = 304 \<or> c = 305 \<or> c = 383 \<or> c = 8490"

text \<open>
  The pattern \<^verbatim>\<open>(?<!\*\*)(KEYWORD[a-z...]{0,6})(?!\*\*)\<close> at one position: \<open>left\<close> is the
  text before the position, \<open>s\<close> the text from it. The keyword is matched, then as many
  letters as there are, six at most; the letters are given back one at a time while two
  stars follow. The result is the length of the match.
\<close>

definition match_keyword :: "py_runtime \<Rightarrow> ustring \<Rightarrow> ustring \<Rightarrow> ustring \<Rightarrow> nat option" where
  "match_keyword rt keyword left s =
     (if suffix [STAR, STAR] left then None
      else if ci_prefix rt keyword s
      then first_some
             (\<lambda>j. if prefix [STAR, STAR] (drop (length keyword + j) s) then None
                  else Some (length keyword + j))
             (greedy 0 (min 6 (run suffix_letter (drop (length keyword) s))))
      else None)"

text \<open>\<^verbatim>\<open>re.sub(pattern, r'**\1**', para, count=1, flags=re.IGNORECASE)\<close>: the first
  position from the left at which the pattern matches; the match is put between two pairs
  of stars, and the rest of the text is copied.\<close>

fun sub_first :: "py_runtime \<Rightarrow> ustring \<Rightarrow> ustring \<Rightarrow> ustring \<Rightarrow> ustring" where
  "sub_first rt keyword left s =
     (case match_keyword rt keyword left s of
        Some n \<Rightarrow> [STAR, STAR] @ take n s @ [STAR, STAR] @ drop n s
      | None \<Rightarrow> (case s of [] \<Rightarrow> [] | c # s' \<Rightarrow> c # sub_first rt keyword (left @ [c]) s'))"

definition bold_first :: "py_runtime \<Rightarrow> ustring \<Rightarrow> ustring \<Rightarrow> ustring" where
  "bold_first rt keyword para = sub_first rt keyword [] para"

definition replace_first_in_paragraph :: "py_runtime \<Rightarrow> ustring \<Rightarrow> ustring \<Rightarrow> ustring" where
  "replace_first_in_paragraph rt keyword text =
     py_join [NL, NL] (map (bold_first rt keyword) (py_split_sep [NL, NL] text))"

definition apply_bold_keywords :: "py_runtime \<Rightarrow> ustring \<Rightarrow> ustring list \<Rightarrow> ustring" where
  "apply_bold_keywords rt content keywords =
     (if keywords = [] then content
      else foldl (\<lambda>content keyword. replace_first_in_paragraph rt keyword content)
             content keywords)"

definition process_content :: "py_runtime \<Rightarrow> ustring \<Rightarrow> ustring list option \<Rightarrow> ustring" where
  "process_content rt content keywords =
     (let content = standardize_titles rt content in
      case keywords of
        None \<Rightarrow> content
      | Some ks \<Rightarrow> if ks = [] then content else apply_bold_keywords rt content ks)"


text \<open>What the specification calls an occurrence: \<open>m\<close> is the keyword up to case (each of
  its characters matched by \<open>ignorecase\<close>), followed
  by at most six letters; \<open>pre\<close> is the text before it and \<open>post\<close> the text behind it, and
  no pair of stars touches it.\<close>

definition keyword_form :: "py_runtime \<Rightarrow> ustring \<Rightarrow> ustring \<Rightarrow> bool" where
  "keyword_form rt keyword m \<longleftrightarrow>
     length keyword \<le> length m \<and> length m \<le> length keyword + 6 \<and>
     list_all2 (ignorecase rt) keyword (take (length keyword) m) \<and>
     list_all suffix_letter (drop (length keyword) m)"

definition occurrence :: "py_runtime \<Rightarrow> ustring \<Rightarrow> ustring \<Rightarrow> ustring \<Rightarrow> ustring \<Rightarrow> bool" where
  "occurrence rt keyword pre m post \<longleftrightarrow>
     keyword_form rt keyword m \<and> \<not> suffix [STAR, STAR] pre \<and> \<not> prefix [STAR, STAR] post"

section \<open>The runtime on Basic Latin and the Polish letters\<close>

text \<open>
  To run the functions on a text, a runtime is needed. \<open>basic_runtime\<close> is Python's on the
  characters of Basic Latin, the letters of the Polish alphabet (the letters \<open>app.py\<close>
  itself lists in its suffix class), U+0149 and U+02BC: on strings of these characters its
  four functions give what \<open>str.lower\<close>, \<open>str.capitalize\<close>, \<open>str.isalnum\<close> and
  \<open>re.IGNORECASE\<close> give. It leaves every other character alone, which Python does not,
  so it stands for Python on strings of the characters named only: the examples are such
  strings, and the theorems are about every runtime.
\<close>

definition basic_lower_char :: "uchar \<Rightarrow> uchar" where
  "basic_lower_char c =
     (if 65 \<le> c \<and> c \<le> 90 then c + 32
      else if c = 211 then 243
      else if c \<in> set polish_upper then c + 1
      else c)"

definition basic_upper_char :: "uchar \<Rightarrow> uchar" where
  "basic_upper_char c =
     (if 97 \<le> c \<and> c \<le> 122 then c - 32
      else if c = 243 then 211
      else if c \<in> set polish_lower then c - 1
      else c)"

text \<open>The title-case form of a character, which \<open>str.capitalize\<close> gives the first one:
  U+0149 becomes U+02BC followed by \<open>N\<close>.\<close>

definition basic_title_char :: "uchar \<Rightarrow> ustring" where
  "basic_title_char c = (if c = 329 then [700, 78] else [basic_upper_char c])"

definition basic_alnum :: "uchar \<Rightarrow> bool" where
  "basic_alnum c \<longleftrightarrow>
     (48 \<le> c \<and> c \<le> 57) \<or> (65 \<le> c \<and> c \<le> 90) \<or> (97 \<le> c \<and> c \<le> 122) \<or>
     c \<in> set polish_lower \<or> c \<in> set polish_upper \<or> c = 329 \<or> c = 700"

definition basic_lower :: "ustring \<Rightarrow> ustring" where
  "basic_lower s = map basic_lower_char s"

definition basic_capitalize :: "ustring \<Rightarrow> ustring" where
  "basic_capitalize s = (case s of [] \<Rightarrow> [] | c # cs \<Rightarrow> basic_title_char c @ basic_lower cs)"

definition basic_ignorecase :: "uchar \<Rightarrow> uchar \<Rightarrow> bool" where
  "basic_ignorecase c d \<longleftrightarrow> basic_lower_char c = basic_lower_char d"

definition basic_runtime :: py_runtime where
  "basic_runtime = \<lparr> str_lower = basic_lower, str_capitalize = basic_capitalize,
                      isalnum = basic_alnum, ignorecase = basic_ignorecase \<rparr>"

section \<open>Requests, files and the world outside\<close>

text \<open>The request models of the source. A field with a default is an option; \<open>truthy\<close> is
  the test of \<^verbatim>\<open>if request.field:\<close>, which an absent and an empty value both fail.\<close>

record TocItem =
  title :: ustring
  page :: int

record PdfRequest =
  content :: ustring
  title :: ustring
  subtitle :: "ustring option"
  author :: "ustring option"
  toc_items :: "TocItem list option"
  keywords_to_bold :: "ustring list option"
  cover_url :: "ustring option"
  infographic_urls :: "ustring list option"
  logo_url :: "ustring option"

record ZipRequest =
  pdf_content :: ustring
  title :: ustring
  subtitle :: "ustring option"
  author :: "ustring option"
  toc_items :: "TocItem list option"
  keywords_to_bold :: "ustring list option"
  cover_url :: "ustring option"
  mockup_url :: "ustring option"
  infographic_urls :: "ustring list option"
  logo_url :: "ustring option"
  blog_post :: "ustring option"
  shop_description :: "ustring option"


text \<open>
  What \<open>requests.get(url, timeout=30)\<close> does: it raises (no connection, a bad URL, too many
  redirects), it times out, or it returns a response with a status code and a body.
\<close>

datatype http_result = RequestFailed | TimedOut | Response nat "nat list"

datatype error = RequestException | Timeout | HTTPError nat | RenderError | ImageError
  | FileNotFound | ZeroDivisionError | UnicodeEncodeError

text \<open>
  A page of a PDF document is a page of the flow of an HTML document (its number, and the
  HTML it was laid out from) or the one page \<open>create_full_page_image_pdf\<close> makes of an image.
  A file of the scratch directory holds downloaded bytes, text, or a PDF document.
\<close>

datatype page = Flow nat ustring | FullPage "nat list"

datatype stored = Raw "nat list" | Text ustring | Pdf "page list"

type_synonym files = "ustring \<Rightarrow> stored option"

text \<open>
  The libraries and the network, as one request sees them: the answer to a GET request
  (the same whenever a URL is asked again during the request), \<open>markdown.markdown\<close> with
  the two extensions, the number of pages WeasyPrint lays an HTML document out on (or its
  failure; it may read the files the document names), whether Pillow and ReportLab accept
  the bytes as an image, the text of \<open>get_fotz_css()\<close>, a constant of the source that no
  claim reads, and the Unicode tables of the runtime.
\<close>

record env =
  runtime :: py_runtime
  http_get :: "ustring \<Rightarrow> http_result"
  markdown :: "ustring \<Rightarrow> ustring"
  layout :: "files \<Rightarrow> ustring \<Rightarrow> error + nat"
  valid_image :: "nat list \<Rightarrow> bool"
  fotz_css :: ustring

text \<open>\<open>os.path.join\<close> of a directory and a name.\<close>

definition path_join :: "ustring \<Rightarrow> ustring \<Rightarrow> ustring" where
  "path_join d f =
     (if prefix [47] f then f
      else if d = [] \<or> suffix [47] d then d @ f
      else d @ [47] @ f)"

text \<open>\<open>str\<close> of an integer.\<close>

function str_nat :: "nat \<Rightarrow> ustring" where
  "str_nat n = (if n < 10 then [48 + n] else str_nat (n div 10) @ [48 + n mod 10])"
  by pat_completeness auto
termination
  by (relation "measure id") auto

declare str_nat.simps [simp del]

definition str_int :: "int \<Rightarrow> ustring" where
  "str_int i = (if i < 0 then HYPHEN # str_nat (nat (- i)) else str_nat (nat i))"

section \<open>Fetching an asset\<close>

text \<open>\<open>response.raise_for_status()\<close> raises for the status codes 400 to 599.\<close>

definition raise_for_status :: "nat \<Rightarrow> error + unit" where
  "raise_for_status status =
     (if 400 \<le> status \<and> status < 600 then Inl (HTTPError status) else Inr ())"

text \<open>The \<open>try\<close> block of \<open>download_image\<close>, and the function with its \<open>except Exception\<close>.
  Writing to the scratch directory is taken to succeed.\<close>

definition download_try ::
  "env \<Rightarrow> ustring \<Rightarrow> ustring \<Rightarrow> ustring \<Rightarrow> files \<Rightarrow> error + (ustring \<times> files)" where
  "download_try e url temp_dir filename fs =
     (case http_get e url of
        RequestFailed \<Rightarrow> Inl RequestException
      | TimedOut \<Rightarrow> Inl Timeout
      | Response status body \<Rightarrow>
          (case raise_for_status status of
             Inl err \<Rightarrow> Inl err
           | Inr _ \<Rightarrow>
               (let filepath = path_join temp_dir filename
                in Inr (filepath, fs(filepath \<mapsto> Raw body)))))"

definition download_image ::
  "env \<Rightarrow> ustring \<Rightarrow> ustring \<Rightarrow> ustring \<Rightarrow> files \<Rightarrow> ustring option \<times> files" where
  "download_image e url temp_dir filename fs =
     (case download_try e url temp_dir filename fs of
        Inl err \<Rightarrow> (None, fs)
      | Inr (filepath, fs') \<Rightarrow> (Some filepath, fs'))"

section \<open>Composing and merging documents\<close>

text \<open>\<open>create_full_page_image_pdf\<close>: the image file is opened and drawn on one page; a file
  that is no image makes Pillow raise. The page is modelled by the image it shows; the
  scale, the size and the position at which the image is drawn are \<open>cover_fit\<close> of its
  width and height, below.\<close>

definition create_full_page_image_pdf ::
  "env \<Rightarrow> ustring \<Rightarrow> ustring \<Rightarrow> files \<Rightarrow> error + (ustring \<times> files)" where
  "create_full_page_image_pdf e image_path output_path fs =
     (case fs image_path of
        Some (Raw img) \<Rightarrow>
          if valid_image e img then Inr (output_path, fs(output_path \<mapsto> Pdf [FullPage img]))
          else Inl ImageError
      | _ \<Rightarrow> Inl FileNotFound)"

text \<open>\<open>HTML(filename=html_path).write_pdf(content_pdf_path)\<close>\<close>

definition write_pdf :: "env \<Rightarrow> ustring \<Rightarrow> ustring \<Rightarrow> files \<Rightarrow> error + files" where
  "write_pdf e html_path pdf_path fs =
     (case fs html_path of
        Some (Text html) \<Rightarrow>
          (case layout e fs html of
             Inl err \<Rightarrow> Inl err
           | Inr n \<Rightarrow> Inr (fs(pdf_path \<mapsto> Pdf (map (\<lambda>i. Flow i html) [0..<n]))))
      | _ \<Rightarrow> Inl FileNotFound)"

text \<open>\<open>PdfMerger.append(path)\<close>: the pages of the document are added behind the pages the
  merger holds.\<close>

definition merger_append :: "files \<Rightarrow> page list \<Rightarrow> ustring \<Rightarrow> error + page list" where
  "merger_append fs merger path =
     (case fs path of Some (Pdf pages) \<Rightarrow> Inr (merger @ pages) | _ \<Rightarrow> Inl FileNotFound)"

section \<open>The markup\<close>

definition primary_color :: ustring where "primary_color = U ''#601A43''"
definition secondary_color :: ustring where "secondary_color = U ''#162E52''"
definition accent_color :: ustring where "accent_color = U ''#C9A227''"

definition toc_head :: ustring where
  \<open>toc_head =
     U ''\<newline>    <h2 style="color: '' @ primary_color @ U ''; border-bottom: 2px solid '' @ primary_color
       @ U ''; padding-bottom: 10px; page-break-before: avoid;">\<newline>''
     @ U ''        SPIS TRE'' @ [346] @ U ''CI\<newline>''
     @ U ''    </h2>\<newline>''
     @ U ''    <div class="toc">\<newline>''
     @ U ''    ''\<close>

definition toc_row :: "TocItem \<Rightarrow> ustring" where
  \<open>toc_row item =
     U ''\<newline>        <div class="toc-item">\<newline>''
     @ U ''            <span class="toc-title">'' @ TocItem.title item @ U ''</span>\<newline>''
     @ U ''            <span class="toc-page">'' @ str_int (page item) @ U ''</span>\<newline>''
     @ U ''        </div>\<newline>''
     @ U ''        ''\<close>

definition generate_toc_html :: "TocItem list \<Rightarrow> ustring" where
  \<open>generate_toc_html items = foldl (\<lambda>html item. html @ toc_row item) toc_head items @ U ''</div>''\<close>

text \<open>The logo block of step 4: a block that starts a new page and centres its content,
  with the image, the caption and the link.\<close>

definition logo_div_open :: ustring where
  \<open>logo_div_open =
     U ''\<newline>            <div style="page-break-before: always; text-align: center; padding-top: 200pt;">\<newline>''\<close>

definition logo_img :: "ustring \<Rightarrow> ustring" where
  \<open>logo_img logo_path =
     U ''                <img src="file://'' @ logo_path @ U ''" style="width: 150pt; height: auto;" />\<newline>''\<close>

definition logo_caption :: ustring where
  \<open>logo_caption =
     U ''                <p style="margin-top: 30pt; font-size: 14pt; color: '' @ secondary_color @ U '';">\<newline>''
     @ U ''                    FOTZ Studio\<newline>''
     @ U ''                </p>\<newline>''\<close>

definition logo_link :: ustring where
  \<open>logo_link =
     U ''                <p><a href="https://fotz.pl" style="color: '' @ secondary_color
       @ U '';">fotz.pl</a></p>\<newline>''\<close>

definition logo_div_close :: ustring where
  \<open>logo_div_close = U ''            </div>\<newline>            ''\<close>

definition logo_block :: "ustring \<Rightarrow> ustring" where
  "logo_block logo_path =
     logo_div_open @ logo_img logo_path @ logo_caption @ logo_link @ logo_div_close"

definition html_top :: "ustring \<Rightarrow> ustring \<Rightarrow> ustring" where
  \<open>html_top doc_title css =
     U ''<!DOCTYPE html>\<newline>''
     @ U ''<html lang="pl">\<newline>''
     @ U ''<head>\<newline>''
     @ U ''    <meta charset="UTF-8">\<newline>''
     @ U ''    <title>'' @ doc_title @ U ''</title>\<newline>''
     @ U ''    <style>'' @ css @ U ''</style>\<newline>''
     @ U ''</head>\<newline>''
     @ U ''<body>\<newline>''\<close>

definition html_bottom :: ustring where
  \<open>html_bottom = U ''\<newline></body>\<newline></html>''\<close>

definition full_html_text :: "ustring \<Rightarrow> ustring \<Rightarrow> ustring \<Rightarrow> ustring \<Rightarrow> ustring \<Rightarrow> ustring" where
  "full_html_text doc_title css toc_html content_html logo_html =
     html_top doc_title css @ toc_html @ [NL] @ content_html @ [NL] @ logo_html @ html_bottom"

section \<open>The document\<close>

text \<open>Step 4 of \<open>generate_pdf_from_content\<close>: the logo is fetched and its block is made.\<close>

definition logo_step :: "env \<Rightarrow> PdfRequest \<Rightarrow> ustring \<Rightarrow> files \<Rightarrow> ustring \<times> files" where
  "logo_step e request temp_dir fs =
     (case PdfRequest.logo_url request of
        None \<Rightarrow> ([], fs)
      | Some url \<Rightarrow>
          if url = [] then ([], fs)
          else (case download_image e url temp_dir (U ''logo.png'') fs of
                  (None, fs') \<Rightarrow> ([], fs')
                | (Some logo_path, fs') \<Rightarrow> (logo_block logo_path, fs')))"

text \<open>Steps 1 to 7: the content is processed, turned into HTML between the table of
  contents and the logo block, written to \<open>content.html\<close> and laid out into
  \<open>content.pdf\<close>. The result is the pages of that document and the files.\<close>

definition render_content ::
  "env \<Rightarrow> PdfRequest \<Rightarrow> ustring \<Rightarrow> files \<Rightarrow> error + (page list \<times> files)" where
  "render_content e request temp_dir fs =
     (let processed_content = process_content (runtime e) (content request)
                                 (PdfRequest.keywords_to_bold request);
          content_html = markdown e processed_content;
          toc_html = (case PdfRequest.toc_items request of
                        None \<Rightarrow> []
                      | Some items \<Rightarrow> if items = [] then [] else generate_toc_html items);
          (logo_html, fs1) = logo_step e request temp_dir fs;
          full_html = full_html_text (PdfRequest.title request) (fotz_css e)
                        toc_html content_html logo_html;
          html_path = path_join temp_dir (U ''content.html'');
          fs2 = fs1(html_path \<mapsto> Text full_html);
          content_pdf_path = path_join temp_dir (U ''content.pdf'')
      in case write_pdf e html_path content_pdf_path fs2 of
           Inl err \<Rightarrow> Inl err
         | Inr fs3 \<Rightarrow>
             (case fs3 content_pdf_path of
                Some (Pdf pages) \<Rightarrow> Inr (pages, fs3)
              | _ \<Rightarrow> Inl FileNotFound))"

text \<open>Step 8, the cover: \<^verbatim>\<open>if request.cover_url:\<close> the cover is fetched, and if that gave a
  file, its page is composed and appended to the merger.\<close>

definition cover_step ::
  "env \<Rightarrow> PdfRequest \<Rightarrow> ustring \<Rightarrow> files \<Rightarrow> page list \<Rightarrow> error + (files \<times> page list)" where
  "cover_step e request temp_dir fs merger =
     (case PdfRequest.cover_url request of
        None \<Rightarrow> Inr (fs, merger)
      | Some url \<Rightarrow>
          if url = [] then Inr (fs, merger)
          else (case download_image e url temp_dir (U ''cover.png'') fs of
                  (None, fs1) \<Rightarrow> Inr (fs1, merger)
                | (Some cover_path, fs1) \<Rightarrow>
                    (case create_full_page_image_pdf e cover_path
                            (path_join temp_dir (U ''cover.pdf'')) fs1 of
                       Inl err \<Rightarrow> Inl err
                     | Inr (cover_pdf_path, fs2) \<Rightarrow>
                         (case merger_append fs2 merger cover_pdf_path of
                            Inl err \<Rightarrow> Inl err
                          | Inr merger' \<Rightarrow> Inr (fs2, merger')))))"

text \<open>Step 8, the infographics: the loop over \<open>enumerate(request.infographic_urls)\<close>, from
  index \<open>i\<close> on.\<close>

fun infographic_loop ::
  "env \<Rightarrow> ustring \<Rightarrow> nat \<Rightarrow> ustring list \<Rightarrow> files \<Rightarrow> page list \<Rightarrow> error + (files \<times> page list)" where
  "infographic_loop e temp_dir i [] fs merger = Inr (fs, merger)"
| "infographic_loop e temp_dir i (url # urls) fs merger =
     (case download_image e url temp_dir (U ''infographic_'' @ str_nat i @ U ''.png'') fs of
        (None, fs1) \<Rightarrow> infographic_loop e temp_dir (Suc i) urls fs1 merger
      | (Some inf_path, fs1) \<Rightarrow>
          (case create_full_page_image_pdf e inf_path
                  (path_join temp_dir (U ''infographic_'' @ str_nat i @ U ''.pdf'')) fs1 of
             Inl err \<Rightarrow> Inl err
           | Inr (inf_pdf_path, fs2) \<Rightarrow>
               (case merger_append fs2 merger inf_pdf_path of
                  Inl err \<Rightarrow> Inl err
                | Inr merger' \<Rightarrow> infographic_loop e temp_dir (Suc i) urls fs2 merger')))"

text \<open>\<open>generate_pdf_from_content\<close>: the content document is rendered (steps 1 to 7), the
  merger gets the cover, the content document and the infographics (step 8), and the
  merged document is written to \<open>final.pdf\<close> and read back (steps 9 and 10). The result is
  the final document, with the files of the scratch directory.\<close>

definition generate_pdf_from_content ::
  "env \<Rightarrow> PdfRequest \<Rightarrow> ustring \<Rightarrow> files \<Rightarrow> error + (page list \<times> files)" where
  "generate_pdf_from_content e request temp_dir fs =
     (case render_content e request temp_dir fs of
        Inl err \<Rightarrow> Inl err
      | Inr (content_pages, fs3) \<Rightarrow>
          (case cover_step e request temp_dir fs3 [] of
             Inl err \<Rightarrow> Inl err
           | Inr (fs4, merger1) \<Rightarrow>
               (case merger_append fs4 merger1 (path_join temp_dir (U ''content.pdf'')) of
                  Inl err \<Rightarrow> Inl err
                | Inr merger2 \<Rightarrow>
                    (case infographic_loop e temp_dir 0
                            (case PdfRequest.infographic_urls request of
                               None \<Rightarrow> [] | Some urls \<Rightarrow> urls)
                            fs4 merger2 of
                       Inl err \<Rightarrow> Inl err
                     | Inr (fs5, merger3) \<Rightarrow>
                         (let final_pdf_path = path_join temp_dir (U ''final.pdf'');
                              fs6 = fs5(final_pdf_path \<mapsto> Pdf merger3)
                          in case fs6 final_pdf_path of
                               Some (Pdf pages) \<Rightarrow> Inr (pages, fs6)
                             | _ \<Rightarrow> Inl FileNotFound)))))"

text \<open>
  \<open>StreamingResponse\<close> with a \<open>Content-Disposition\<close> header: Starlette encodes the
  value of a header as Latin-1 when the response is made, which raises
  \<open>UnicodeEncodeError\<close> for a character above U+00FF. Both endpoints make the response
  inside their \<open>try\<close> block.
\<close>

definition encode_latin1 :: "ustring \<Rightarrow> error + nat list" where
  "encode_latin1 s = (if list_all (\<lambda>c. c < 256) s then Inr s else Inl UnicodeEncodeError)"

definition content_disposition :: "ustring \<Rightarrow> ustring" where
  "content_disposition filename = U ''attachment; filename='' @ filename"

text \<open>The endpoint \<open>generate_pdf\<close>: the name of the file and the document; an error becomes
  the response 500.\<close>

definition generate_pdf ::
  "env \<Rightarrow> PdfRequest \<Rightarrow> ustring \<Rightarrow> files \<Rightarrow> error + (ustring \<times> page list)" where
  "generate_pdf e request temp_dir fs =
     (case generate_pdf_from_content e request temp_dir fs of
        Inl err \<Rightarrow> Inl err
      | Inr (pdf_bytes, fs') \<Rightarrow>
          (let safe = safe_title (runtime e) (PdfRequest.title request);
               filename = safe @ U ''.pdf''
           in case encode_latin1 (content_disposition filename) of
                Inl err \<Rightarrow> Inl err
              | Inr header \<Rightarrow> Inr (filename, pdf_bytes)))"

section \<open>The package\<close>






text \<open>Step 1 of \<open>generate_zip\<close> builds the request of the document from the request of the
  package.\<close>

definition pdf_request_of :: "ZipRequest \<Rightarrow> PdfRequest" where
  "pdf_request_of request =
     \<lparr> content = pdf_content request,
       PdfRequest.title = ZipRequest.title request,
       PdfRequest.subtitle = ZipRequest.subtitle request,
       PdfRequest.author = ZipRequest.author request,
       PdfRequest.toc_items = ZipRequest.toc_items request,
       PdfRequest.keywords_to_bold = ZipRequest.keywords_to_bold request,
       PdfRequest.cover_url = ZipRequest.cover_url request,
       PdfRequest.infographic_urls = ZipRequest.infographic_urls request,
       PdfRequest.logo_url = ZipRequest.logo_url request \<rparr>"


section \<open>What the specification speaks of\<close>

text \<open>The body a fetch of \<open>url\<close> gives, if it succeeds; and the same for a URL of the
  request, which may be absent or empty.\<close>

definition fetched :: "env \<Rightarrow> ustring \<Rightarrow> nat list option" where
  "fetched e url =
     (case http_get e url of
        Response status body \<Rightarrow> if 400 \<le> status \<and> status < 600 then None else Some body
      | _ \<Rightarrow> None)"

definition fetched_opt :: "env \<Rightarrow> ustring option \<Rightarrow> nat list option" where
  "fetched_opt e url =
     (case url of None \<Rightarrow> None | Some u \<Rightarrow> if u = [] then None else fetched e u)"

definition full_pages :: "nat list option \<Rightarrow> page list" where
  "full_pages img = (case img of None \<Rightarrow> [] | Some b \<Rightarrow> [FullPage b])"

definition url_list :: "ustring list option \<Rightarrow> ustring list" where
  "url_list urls = (case urls of None \<Rightarrow> [] | Some us \<Rightarrow> us)"

definition image_ok :: "env \<Rightarrow> nat list option \<Rightarrow> bool" where
  "image_ok e img = (case img of None \<Rightarrow> True | Some b \<Rightarrow> valid_image e b)"




definition is_full_page :: "page \<Rightarrow> bool" where
  "is_full_page p = (case p of FullPage img \<Rightarrow> True | Flow i html \<Rightarrow> False)"



section \<open>Worlds and requests to try the functions on\<close>

text \<open>A world in which every URL answers 200 with the URL itself as the body, every image
  is accepted and every document is laid out on one page; the same world but for the URL
  \<open>c\<close>, which cannot be reached; and a world in which every URL answers 304 with an empty
  body, which is no image.\<close>

definition env_ok :: env where
  "env_ok = \<lparr> runtime = basic_runtime,
              http_get = (\<lambda>url. Response 200 url), markdown = (\<lambda>s. s),
              layout = (\<lambda>fs html. Inr 1), valid_image = (\<lambda>img. True), fotz_css = [] \<rparr>"

definition env_down :: env where
  "env_down = \<lparr> runtime = basic_runtime,
                http_get = (\<lambda>url. if url = U ''c'' then RequestFailed else Response 200 url),
                markdown = (\<lambda>s. s), layout = (\<lambda>fs html. Inr 1),
                valid_image = (\<lambda>img. True), fotz_css = [] \<rparr>"

definition env_304 :: env where
  "env_304 = \<lparr> runtime = basic_runtime,
               http_get = (\<lambda>url. Response 304 []), markdown = (\<lambda>s. s),
               layout = (\<lambda>fs html. Inr 1), valid_image = (\<lambda>img. img \<noteq> []), fotz_css = [] \<rparr>"

definition request_0 :: PdfRequest where
  "request_0 = \<lparr> content = U ''text'', PdfRequest.title = U ''My Book'',
                 PdfRequest.subtitle = None, PdfRequest.author = None,
                 PdfRequest.toc_items = None, PdfRequest.keywords_to_bold = None,
                 PdfRequest.cover_url = Some (U ''c''),
                 PdfRequest.infographic_urls = Some [U ''i1'', U ''i2''],
                 PdfRequest.logo_url = Some (U ''l'') \<rparr>"

definition zip_request_0 :: ZipRequest where
  "zip_request_0 = \<lparr> pdf_content = U ''text'', ZipRequest.title = U ''My Book'',
                     ZipRequest.subtitle = None, ZipRequest.author = None,
                     ZipRequest.toc_items = None, ZipRequest.keywords_to_bold = None,
                     ZipRequest.cover_url = Some (U ''c''), mockup_url = None,
                     ZipRequest.infographic_urls = Some [U ''i1'', U ''i2''],
                     ZipRequest.logo_url = Some (U ''l''),
                     blog_post = Some (U ''blog''), shop_description = Some (U ''shop'') \<rparr>"

text \<open>The HTML of a request, as steps 1 to 5 build it.\<close>

definition request_html :: "env \<Rightarrow> PdfRequest \<Rightarrow> ustring \<Rightarrow> ustring" where
  "request_html e request temp_dir =
     html_top (PdfRequest.title request) (fotz_css e)
     @ (case PdfRequest.toc_items request of
          None \<Rightarrow> []
        | Some items \<Rightarrow> if items = [] then [] else generate_toc_html items)
     @ [NL]
     @ markdown e (process_content (runtime e) (content request)
                     (PdfRequest.keywords_to_bold request))
     @ [NL]
     @ (case fetched_opt e (PdfRequest.logo_url request) of
          None \<Rightarrow> []
        | Some img \<Rightarrow>
            logo_div_open @ logo_img (path_join temp_dir (U ''logo.png'')) @ logo_caption
              @ logo_link @ logo_div_close)
     @ html_bottom"

section \<open>Floating point\<close>

text \<open>
  A Python \<open>float\<close> is a binary64 number. A finite one is modelled by the rational number
  it is, and an operation by the exact operation followed by rounding to 53 significant
  bits: to the nearest such number, and to the one with an even last bit when two are
  equally near (IEEE 754, the default rounding). \<open>expo x\<close> is the exponent \<open>e\<close> with
  \<open>2^e \<le> |x| < 2^(e+1)\<close>. The range of the exponent is not modelled; the numbers of
  \<open>create_full_page_image_pdf\<close> stay far inside it for every image that fits in memory.
\<close>

definition pow2 :: "int \<Rightarrow> rat" where
  "pow2 e = (if 0 \<le> e then 2 ^ nat e else 1 / 2 ^ nat (- e))"

definition expo :: "rat \<Rightarrow> int" where
  "expo x = (if 1 \<le> \<bar>x\<bar> then bitlen \<lfloor>\<bar>x\<bar>\<rfloor> - 1 else - bitlen (\<lceil>1 / \<bar>x\<bar>\<rceil> - 1))"

definition rne :: "rat \<Rightarrow> int" where
  "rne y = (let f = \<lfloor>y\<rfloor>; r = y - of_int f
            in if r < 1 / 2 then f else if 1 / 2 < r then f + 1
               else if even f then f else f + 1)"

definition round53 :: "rat \<Rightarrow> rat" where
  "round53 x =
     (if x = 0 then 0
      else of_int (rne (x / pow2 (expo x - 52))) * pow2 (expo x - 52))"

text \<open>Division, multiplication and subtraction of floats, and \<open>float(n)\<close> of an integer.\<close>

definition fdiv :: "rat \<Rightarrow> rat \<Rightarrow> rat" where
  "fdiv a b = round53 (a / b)"

definition fmul :: "rat \<Rightarrow> rat \<Rightarrow> rat" where
  "fmul a b = round53 (a * b)"

definition fsub :: "rat \<Rightarrow> rat \<Rightarrow> rat" where
  "fsub a b = round53 (a - b)"

definition float_of_nat :: "nat \<Rightarrow> rat" where
  "float_of_nat n = round53 (of_nat n)"

text \<open>\<^verbatim>\<open>PAGE_WIDTH, PAGE_HEIGHT = A4\<close>: the floats \<open>595.2755905511812\<close> and
  \<open>841.8897637795277\<close> of \<open>reportlab.lib.pagesizes\<close>, which are \<open>210*mm\<close> and \<open>297*mm\<close>.\<close>

definition PAGE_WIDTH :: rat where "PAGE_WIDTH = 5236099468337991 / 2 ^ 43"

definition PAGE_HEIGHT :: rat where "PAGE_HEIGHT = 7405340676649445 / 2 ^ 43"

text \<open>
  The arithmetic of \<open>create_full_page_image_pdf\<close>, from the size of the image to the
  arguments of \<open>drawImage\<close>: the scale, the width and the height of the scaled image, and
  the position of its lower left corner. Dividing by a side of zero raises
  \<open>ZeroDivisionError\<close>.
\<close>

definition cover_fit :: "nat \<Rightarrow> nat \<Rightarrow> error + (rat \<times> rat \<times> rat \<times> rat \<times> rat)" where
  "cover_fit img_width img_height =
     (if img_width = 0 \<or> img_height = 0 then Inl ZeroDivisionError
      else
        let scale_w = fdiv PAGE_WIDTH (float_of_nat img_width);
            scale_h = fdiv PAGE_HEIGHT (float_of_nat img_height);
            scale = max scale_w scale_h;
            new_width = fmul (float_of_nat img_width) scale;
            new_height = fmul (float_of_nat img_height) scale;
            x = fdiv (fsub PAGE_WIDTH new_width) 2;
            y = fdiv (fsub PAGE_HEIGHT new_height) 2
        in Inr (scale, new_width, new_height, x, y))"

section \<open>Facts about the string functions\<close>

lemma U_Nil: "U [] = []"
  by (simp add: U_def)

lemma U_Cons: "U (c # cs) = of_char c # U cs"
  by (simp add: U_def)

lemmas U_simps = U_Nil U_Cons

lemma re_sub_class_delete: "re_sub_class cls [] s = filter (\<lambda>c. \<not> cls c) s"
  by (induction s) auto

lemma replace_from_char: "replace_from [a] [b] s = map (\<lambda>c. if c = a then b else c) s"
  by (induction s) auto

section \<open>The title of the output file: results\<close>

text \<open>
  Claim C5, as the code has it. The title is stripped of every character that is no word
  character (alphanumeric or underscore), no whitespace and no hyphen; then each space
  character U+0020 becomes one underscore. Other whitespace stays, and a run of spaces
  becomes as many underscores. In a runtime in which the letters and the digit of
  \<open>M\<acute>oj Ebook: Wersja 2!\<close> (with U+00F3) are alphanumeric and the colon and the exclamation
  mark are not, this title becomes \<open>M\<acute>oj_Ebook_Wersja_2\<close>.
\<close>

theorem safe_title_strips_then_underscores:
  "safe_title rt t =
     map (\<lambda>c. if c = SPACE then UNDERSCORE else c)
       (filter (\<lambda>c. is_word rt c \<or> is_space c \<or> c = HYPHEN) t)
   \<and> (list_all (isalnum rt) (U ''MjEbookWersja2'' @ [243]) \<and>
        \<not> isalnum rt (of_char CHR '':'') \<and> \<not> isalnum rt (of_char CHR ''!'') \<longrightarrow>
      safe_title rt (U ''M'' @ [243] @ U ''j Ebook: Wersja 2!'')
        = U ''M'' @ [243] @ U ''j_Ebook_Wersja_2'')"
proof (intro conjI impI)
  show "safe_title rt t =
     map (\<lambda>c. if c = SPACE then UNDERSCORE else c)
       (filter (\<lambda>c. is_word rt c \<or> is_space c \<or> c = HYPHEN) t)"
    by (simp add: safe_title_def py_replace_def re_sub_class_delete replace_from_char
        not_word_space_hyphen_def)
next
  assume "list_all (isalnum rt) (U ''MjEbookWersja2'' @ [243]) \<and>
        \<not> isalnum rt (of_char CHR '':'') \<and> \<not> isalnum rt (of_char CHR ''!'')"
  then show "safe_title rt (U ''M'' @ [243] @ U ''j Ebook: Wersja 2!'')
       = U ''M'' @ [243] @ U ''j_Ebook_Wersja_2''"
    by (simp add: safe_title_def py_replace_def re_sub_class_delete replace_from_char
        not_word_space_hyphen_def is_word_def is_space_def U_simps)
qed

theorem safe_title_strips_then_underscores_witness:
  "list_all (isalnum basic_runtime) (U ''MjEbookWersja2'' @ [243])
   \<and> \<not> isalnum basic_runtime (of_char CHR '':'') \<and> \<not> isalnum basic_runtime (of_char CHR ''!'')
   \<and> safe_title basic_runtime (U ''M'' @ [243] @ U ''j Ebook: Wersja 2!'')
       = U ''M'' @ [243] @ U ''j_Ebook_Wersja_2''"
proof -
  have a: "list_all (isalnum basic_runtime) (U ''MjEbookWersja2'' @ [243]) \<and>
        \<not> isalnum basic_runtime (of_char CHR '':'') \<and> \<not> isalnum basic_runtime (of_char CHR ''!'')"
    by (simp add: basic_runtime_def basic_alnum_def polish_lower_def polish_upper_def U_simps)
  with safe_title_strips_then_underscores [of basic_runtime]
  have "safe_title basic_runtime (U ''M'' @ [243] @ U ''j Ebook: Wersja 2!'')
       = U ''M'' @ [243] @ U ''j_Ebook_Wersja_2''"
    by blast
  with a show ?thesis by blast
qed

text \<open>
  Claim C5 as stated fails: two spaces are one whitespace run, which the specification
  turns into one underscore, and the code into two.
\<close>

theorem safe_title_space_run_counterexample:
  "safe_title basic_runtime (U ''a  b'') = U ''a__b''
   \<and> spec_sanitize basic_runtime (U ''a  b'') = U ''a_b''"
  by (simp add: safe_title_def py_replace_def re_sub_class_delete replace_from_char
      not_word_space_hyphen_def is_word_def basic_runtime_def basic_alnum_def is_space_def
      polish_lower_def polish_upper_def U_simps spec_sanitize_def)

declare sub_headings.simps [simp del]

lemma greedy_empty: "hi < lo \<Longrightarrow> greedy lo hi = []"
  by (simp add: greedy_def)

lemma greedy_step: "lo \<le> hi \<Longrightarrow> 0 < hi \<Longrightarrow> greedy lo hi = hi # greedy lo (hi - 1)"
  by (cases hi) (simp_all add: greedy_def)

lemma set_greedy: "set (greedy lo hi) = {lo..hi}"
  by (auto simp: greedy_def)

lemma first_some_None: "first_some f xs = None \<longleftrightarrow> (\<forall>x \<in> set xs. f x = None)"
  by (induction xs) (auto split: option.splits)

lemma first_some_head: "f x = Some y \<Longrightarrow> first_some f (x # xs) = Some y"
  by simp

lemma at_eol_simps [simp]: "at_eol [] = True" "at_eol (c # s) = (c = NL)"
  by (simp_all add: at_eol_def)

lemma at_eol_dropWhile: "at_eol (dropWhile (\<lambda>c. c \<noteq> NL) t)"
proof (induction t)
  case Nil
  show ?case by simp
next
  case (Cons a t)
  then show ?case by (cases "a = NL") simp_all
qed

lemma drop_run: "drop (run P t) t = dropWhile P t"
  by (simp add: run_def dropWhile_eq_drop)

lemma take_run: "take (run P t) t = takeWhile P t"
  unfolding run_def by (rule takeWhile_eq_take [symmetric])

lemma run_le_length: "run P t \<le> length t"
  by (simp add: run_def length_takeWhile_le)

lemma title_candidates:
  "first_some (\<lambda>n. if at_eol (drop (k + j + n) s) then Some (k, j, n) else None)
       (greedy 1 (run (\<lambda>c. c \<noteq> NL) (drop (k + j) s)))
   = (if 1 \<le> run (\<lambda>c. c \<noteq> NL) (drop (k + j) s)
      then Some (k, j, run (\<lambda>c. c \<noteq> NL) (drop (k + j) s)) else None)"
proof (cases "1 \<le> run (\<lambda>c. c \<noteq> NL) (drop (k + j) s)")
  case True
  let ?m = "run (\<lambda>c. c \<noteq> NL) (drop (k + j) s)"
  have "drop (k + j + ?m) s = drop ?m (drop (k + j) s)"
    by (simp add: add.commute)
  also have "\<dots> = dropWhile (\<lambda>c. c \<noteq> NL) (drop (k + j) s)"
    by (rule drop_run)
  finally have "at_eol (drop (k + j + ?m) s)"
    by (simp only: at_eol_dropWhile)
  moreover from True have "greedy 1 ?m = ?m # greedy 1 (?m - 1)"
    by (intro greedy_step) simp_all
  ultimately show ?thesis using True
    by simp
next
  case False
  then show ?thesis by (simp add: greedy_empty)
qed

lemma run_space_at_hash:
  assumes "k < run (\<lambda>c. c = HASH) s"
  shows "run is_space (drop k s) = 0"
proof -
  from assms have "k < length (takeWhile (\<lambda>c. c = HASH) s)" by (simp add: run_def)
  then have "s ! k = HASH" and "k < length s"
    using takeWhile_nth [of k "\<lambda>c. c = HASH" s] nth_mem [of k "takeWhile (\<lambda>c. c = HASH) s"]
      length_takeWhile_le [of "\<lambda>c. c = HASH" s]
    by (auto dest: set_takeWhileD)
  then obtain r where "drop k s = HASH # r"
    by (metis Cons_nth_drop_Suc)
  then show ?thesis by (simp add: run_def is_space_def)
qed

lemma marker_candidates:
  assumes "\<And>k. k < h \<Longrightarrow> f k = None"
  shows "first_some f (greedy 2 (min 4 h)) = (if 2 \<le> h \<and> h \<le> 4 then f h else None)"
proof (cases "2 \<le> h \<and> h \<le> 4")
  case True
  then have "greedy 2 h = h # greedy 2 (h - 1)"
    by (intro greedy_step) simp_all
  with True have g: "greedy 2 (min 4 h) = h # greedy 2 (h - 1)"
    by (simp add: min_absorb2)
  have "first_some f (greedy 2 (h - 1)) = None"
    using assms by (auto simp: first_some_None set_greedy)
  with True g show ?thesis by (simp split: option.splits)
next
  case False
  then have "\<forall>k \<in> set (greedy 2 (min 4 h)). k < h"
    by (auto simp: set_greedy)
  with assms have "first_some f (greedy 2 (min 4 h)) = None"
    by (simp add: first_some_None)
  with False show ?thesis by (simp only: if_False)
qed

lemma match_heading_eq:
  "match_heading s =
     (if 2 \<le> run (\<lambda>c. c = HASH) s \<and> run (\<lambda>c. c = HASH) s \<le> 4
      then first_some (title_after s (run (\<lambda>c. c = HASH) s))
             (greedy 1 (run is_space (drop (run (\<lambda>c. c = HASH) s) s)))
      else None)"
proof -
  let ?f = "\<lambda>k. first_some (title_after s k) (greedy 1 (run is_space (drop k s)))"
  have "match_heading s = first_some ?f (greedy 2 (min 4 (run (\<lambda>c. c = HASH) s)))"
    unfolding match_heading_def title_candidates title_after_def ..
  also have "\<dots> = (if 2 \<le> run (\<lambda>c. c = HASH) s \<and> run (\<lambda>c. c = HASH) s \<le> 4
      then ?f (run (\<lambda>c. c = HASH) s) else None)"
    by (rule marker_candidates) (simp add: run_space_at_hash greedy_empty)
  finally show ?thesis .
qed


lemma not_space_hash [simp]: "\<not> is_space HASH"
  by (simp add: is_space_def)

lemma is_space_NL [simp]: "is_space NL"
  by (simp add: is_space_def)

lemma is_space_SPACE [simp]: "is_space SPACE"
  by (simp add: is_space_def)

lemma dropWhile_run_head: "drop (run P t) t = c # r \<Longrightarrow> \<not> P c"
  by (metis drop_run hd_dropWhile list.sel(1) list.simps(3))

lemma run_all: "(\<forall>c \<in> set t. P c) \<longleftrightarrow> run P t = length t"
  unfolding run_def by (metis takeWhile_eq_all_conv takeWhile_eq_take order_refl take_all)

lemma drop_run_Nil: "drop (run P t) t = [] \<longleftrightarrow> (\<forall>c \<in> set t. P c)"
  by (simp add: drop_run)

lemma run_Nil [simp]: "run P [] = 0"
  by (simp add: run_def)

lemma run_Cons: "run P (c # s) = (if P c then Suc (run P s) else 0)"
  by (simp add: run_def)

lemma run_append:
  "run P (l @ r) = (if \<forall>c \<in> set l. P c then length l + run P r else run P l)"
  by (induction l) (auto simp: run_Cons)

lemma run_not_NL_title:
  assumes "NL \<notin> set t" "at_eol r"
  shows "run (\<lambda>c. c \<noteq> NL) (t @ r) = length t"
proof -
  from assms(2) have "run (\<lambda>c. c \<noteq> NL) r = 0"
    by (cases r) (simp_all add: run_Cons)
  moreover from assms(1) have "\<forall>c \<in> set t. c \<noteq> NL" by auto
  ultimately show ?thesis by (simp add: run_append)
qed

text \<open>The match at a marker of two to four hashes that whitespace and a further character
  follow.\<close>

lemma match_heading_title:
  assumes "2 \<le> hashes s" "hashes s \<le> 4" "1 \<le> spaces_after s"
    and "drop (hashes s + spaces_after s) s \<noteq> []"
  shows "match_heading s =
    Some (hashes s, spaces_after s, run (\<lambda>c. c \<noteq> NL) (drop (hashes s + spaces_after s) s))"
proof -
  let ?h = "hashes s" and ?R = "spaces_after s"
  from assms(4) obtain c r where cr: "drop (?h + ?R) s = c # r"
    by (cases "drop (?h + ?R) s") auto
  then have "drop ?R (drop ?h s) = c # r" by (simp add: add.commute)
  then have "\<not> is_space c" by (rule dropWhile_run_head)
  then have "c \<noteq> NL" by auto
  with cr have "1 \<le> run (\<lambda>c. c \<noteq> NL) (drop (?h + ?R) s)"
    by (simp add: run_Cons)
  then have "title_after s ?h ?R = Some (?h, ?R, run (\<lambda>c. c \<noteq> NL) (drop (?h + ?R) s))"
    by (simp add: title_after_def)
  moreover from assms(3) have "greedy 1 ?R = ?R # greedy 1 (?R - 1)"
    by (intro greedy_step) simp_all
  ultimately show ?thesis
    using assms(1,2) by (simp add: match_heading_eq)
qed

text \<open>What a match says about the text.\<close>

lemma match_heading_SomeD:
  assumes "match_heading s = Some (k, j, n)"
  shows "k = hashes s" and "2 \<le> k" and "k \<le> 4" and "1 \<le> j" and "j \<le> spaces_after s"
    and "n = run (\<lambda>c. c \<noteq> NL) (drop (k + j) s)" and "1 \<le> n"
    and "j = spaces_after s \<or> drop (k + spaces_after s) s = []"
proof -
  let ?h = "hashes s" and ?R = "spaces_after s"
  from assms have h: "2 \<le> ?h" "?h \<le> 4"
    and fs: "first_some (title_after s ?h) (greedy 1 ?R) = Some (k, j, n)"
    by (auto simp: match_heading_eq split: if_splits)
  from fs obtain j' where j': "j' \<in> set (greedy 1 ?R)" "title_after s ?h j' = Some (k, j, n)"
    by (blast dest: first_some_SomeD)
  from j'(2) have eq: "k = ?h" "j = j'" "n = run (\<lambda>c. c \<noteq> NL) (drop (?h + j') s)" "1 \<le> n"
    by (auto simp: title_after_def split: if_splits)
  from eq(1) show "k = ?h" .
  from h eq(1) show "2 \<le> k" "k \<le> 4" by auto
  from j'(1) eq(2) show "1 \<le> j" "j \<le> ?R" by (auto simp: set_greedy)
  from eq show "n = run (\<lambda>c. c \<noteq> NL) (drop (k + j) s)" by simp
  from eq(4) show "1 \<le> n" .
  show "j = ?R \<or> drop (k + ?R) s = []"
  proof (cases "drop (?h + ?R) s = []")
    case True
    with eq(1) show ?thesis by simp
  next
    case False
    with h \<open>1 \<le> j\<close> \<open>j \<le> ?R\<close> have m: "match_heading s =
      Some (?h, ?R, run (\<lambda>c. c \<noteq> NL) (drop (?h + ?R) s))"
      by (intro match_heading_title) auto
    from assms [symmetric] m have "Some (k, j, n) =
      Some (?h, ?R, run (\<lambda>c. c \<noteq> NL) (drop (?h + ?R) s))"
      by (rule trans)
    then have "j = ?R" by simp
    then show ?thesis ..
  qed
qed

lemma match_heading_Nil [simp]: "match_heading [] = None"
  by (simp add: match_heading_eq)

lemma match_heading_not_hash: "c \<noteq> HASH \<Longrightarrow> match_heading (c # s) = None"
  by (simp add: match_heading_eq run_Cons)

section \<open>Reading the text\<close>

lemma sub_headings_Nil [simp]: "sub_headings rt prev [] = []"
  by (simp add: sub_headings.simps)

lemma sub_headings_copy:
  "\<not> at_bol prev \<or> match_heading (c # s) = None \<Longrightarrow>
   sub_headings rt prev (c # s) = c # sub_headings rt (Some c) s"
  by (subst sub_headings.simps) auto

lemma sub_headings_match:
  assumes "at_bol prev" "match_heading s = Some (k, j, n)"
  shows "sub_headings rt prev s =
     process_title rt (take (k + j + n) s) (take k s) (take n (drop (k + j) s))
       @ sub_headings rt (Some (last (take (k + j + n) s))) (drop (k + j + n) s)"
  using assms by (subst sub_headings.simps) simp

lemma sub_headings_cong:
  "at_bol p = at_bol q \<Longrightarrow> sub_headings rt p s = sub_headings rt q s"
  by (subst sub_headings.simps, subst (2) sub_headings.simps) simp

declare heading_titles.simps [simp del]

lemma heading_titles_Nil [simp]: "heading_titles prev [] = []"
  by (simp add: heading_titles.simps)

lemma heading_titles_copy:
  "\<not> at_bol prev \<or> match_heading (c # s) = None \<Longrightarrow>
   heading_titles prev (c # s) = heading_titles (Some c) s"
  by (subst heading_titles.simps) auto

lemma heading_titles_match:
  assumes "at_bol prev" "match_heading s = Some (k, j, n)"
  shows "heading_titles prev s =
     take n (drop (k + j) s)
       # heading_titles (Some (last (take (k + j + n) s))) (drop (k + j + n) s)"
  using assms by (subst heading_titles.simps) simp

lemma at_bol_Some [simp]: "at_bol (Some c) \<longleftrightarrow> c = NL"
  by (simp add: at_bol_def)

lemma at_bol_None [simp]: "at_bol None"
  by (simp add: at_bol_def)

text \<open>Inside a line nothing matches: the rest of the line is copied.\<close>

lemma sub_headings_line:
  assumes "NL \<notin> set l" "c \<noteq> NL"
  shows "sub_headings rt (Some c) (l @ r) = l @ sub_headings rt (Some (last (c # l))) r"
  using assms
proof (induction l arbitrary: c)
  case Nil
  then show ?case by simp
next
  case (Cons a l)
  then have "sub_headings rt (Some c) ((a # l) @ r) = a # sub_headings rt (Some a) (l @ r)"
    by (simp add: sub_headings_copy)
  also from Cons have "sub_headings rt (Some a) (l @ r) = l @ sub_headings rt (Some (last (a # l))) r"
    by (intro Cons.IH) auto
  finally show ?case by simp
qed

text \<open>A text without a hash is not changed.\<close>

lemma sub_headings_no_hash: "HASH \<notin> set s \<Longrightarrow> sub_headings rt prev s = s"
proof (induction s arbitrary: prev)
  case Nil
  show ?case by simp
next
  case (Cons c s)
  then have "match_heading (c # s) = None"
    by (intro match_heading_not_hash) auto
  with Cons show ?case by (simp add: sub_headings_copy)
qed


section \<open>Words of the registry\<close>

lemma proper_nouns_wordlike: "\<forall>pn \<in> set PROPER_NOUNS. wordlike pn"
  by (simp add: PROPER_NOUNS_def wordlike_def is_space_def U_simps)

lemma append_proper_find:
  "append_proper rt w pns acc =
     acc @ (case find (\<lambda>pn. str_lower rt pn = str_lower rt w) pns of
              None \<Rightarrow> [] | Some pn \<Rightarrow> [pn])"
  by (induction pns) auto

lemma is_proper_find:
  "is_proper rt w \<longleftrightarrow> find (\<lambda>pn. str_lower rt pn = str_lower rt w) PROPER_NOUNS \<noteq> None"
  by (auto simp: is_proper_def list_ex_iff find_None_iff)

lemma title_words_map: "title_words rt ws acc = acc @ map (canonical_word rt) ws"
  by (induction ws arbitrary: acc)
    (auto simp: append_proper_find is_proper_find canonical_word_def split: option.splits)

section \<open>Splitting and joining\<close>

lemma split_ws_word:
  "\<forall>c \<in> set w. \<not> is_space c \<Longrightarrow> split_ws cur (w @ s) = split_ws (cur @ w) s"
  by (induction w arbitrary: cur) auto

lemma py_split_join:
  "\<forall>w \<in> set ws. wordlike w \<Longrightarrow> py_split (py_join [SPACE] ws) = ws"
proof (induction "[SPACE]" ws rule: py_join.induct)
  case 1
  show ?case by (simp add: py_split_def)
next
  case (2 x)
  then have "split_ws [] (x @ []) = split_ws ([] @ x) []"
    by (intro split_ws_word) (simp add: wordlike_def)
  with 2 show ?case by (simp add: py_split_def wordlike_def)
next
  case (3 x y ys)
  then have "split_ws [] (x @ SPACE # py_join [SPACE] (y # ys))
      = split_ws ([] @ x) (SPACE # py_join [SPACE] (y # ys))"
    by (intro split_ws_word) (simp add: wordlike_def)
  with 3 show ?case by (simp add: py_split_def wordlike_def)
qed

lemma split_ws_wordlike:
  "\<forall>c \<in> set cur. \<not> is_space c \<Longrightarrow> w \<in> set (split_ws cur s) \<Longrightarrow> wordlike w"
proof (induction s arbitrary: cur)
  case Nil
  then show ?case by (auto simp: wordlike_def split: if_splits)
next
  case (Cons a s)
  show ?case
  proof (cases "is_space a")
    case True
    with Cons.prems have "w = cur \<and> cur \<noteq> [] \<or> w \<in> set (split_ws [] s)"
      by (auto split: if_splits)
    then show ?thesis
    proof
      assume "w = cur \<and> cur \<noteq> []"
      with Cons.prems(1) show ?thesis by (simp add: wordlike_def)
    next
      assume "w \<in> set (split_ws [] s)"
      then show ?thesis by (intro Cons.IH [of "[]"]) simp_all
    qed
  next
    case False
    with Cons.prems have "w \<in> set (split_ws (cur @ [a]) s)" by simp
    moreover from False Cons.prems(1) have "\<forall>c \<in> set (cur @ [a]). \<not> is_space c" by simp
    ultimately show ?thesis by (intro Cons.IH [of "cur @ [a]"])
  qed
qed

lemma py_split_wordlike: "w \<in> set (py_split s) \<Longrightarrow> wordlike w"
  using split_ws_wordlike [of "[]" w s] by (simp add: py_split_def)

lemma py_split_spaces: "\<forall>c \<in> set t. is_space c \<Longrightarrow> py_split t = []"
  unfolding py_split_def by (induction t) auto

lemma split_ws_cur: "cur \<noteq> [] \<Longrightarrow> split_ws cur s \<noteq> []"
  by (induction s arbitrary: cur) auto

lemma py_split_not_space: "\<not> is_space c \<Longrightarrow> py_split (c # t) \<noteq> []"
  by (simp add: py_split_def split_ws_cur)

lemma py_join_words:
  assumes "\<forall>w \<in> set ws. wordlike w" "c \<in> set (py_join [SPACE] ws)"
  shows "c \<noteq> NL"
  using assms
  by (induction "[SPACE]" ws rule: py_join.induct) (auto simp: wordlike_def)

lemma py_join_head:
  "wordlike w \<Longrightarrow> \<exists>c r. py_join [SPACE] (w # ws) = c # r \<and> \<not> is_space c"
  by (cases w; cases ws) (auto simp: wordlike_def)

section \<open>One line at a time\<close>

lemma run_append_short: "run P l < length l \<Longrightarrow> run P (l @ r) = run P l"
  by (auto simp: run_append run_all)

lemma hashes_append_eol: "at_eol r \<Longrightarrow> hashes (l @ r) = hashes l"
  by (cases r) (auto simp: run_append run_Cons run_all)

lemma take_hashes: "take (hashes l) l = replicate (hashes l) HASH"
proof -
  have "\<forall>c \<in> set (takeWhile (\<lambda>c. c = HASH) l). c = HASH"
    by (auto dest: set_takeWhileD)
  then have "takeWhile (\<lambda>c. c = HASH) l = replicate (length (takeWhile (\<lambda>c. c = HASH) l)) HASH"
    by (simp add: replicate_length_same)
  moreover have "take (hashes l) l = takeWhile (\<lambda>c. c = HASH) l"
    by (rule take_run)
  ultimately show ?thesis by (simp add: run_def)
qed

lemma sub_headings_eol:
  assumes "at_eol r"
  shows "sub_headings rt p r = (case r of [] \<Rightarrow> [] | c # r' \<Rightarrow> NL # sub_headings rt (Some NL) r')"
proof (cases r)
  case Nil
  then show ?thesis by simp
next
  case (Cons c r')
  with assms have "c = NL" by simp
  then have "match_heading (c # r') = None" by (intro match_heading_not_hash) simp
  with Cons \<open>c = NL\<close> show ?thesis by (simp add: sub_headings_copy)
qed

lemma heading_line_step:
  assumes "NL \<notin> set l" "at_bol prev" "at_eol r" "heading_line l = Some (k, ttl)"
  shows "sub_headings rt prev (l @ r) = title_line rt l @ sub_headings rt (Some (last l)) r"
proof -
  let ?w = "spaces_after l"
  from assms(4) have k: "k = hashes l" "2 \<le> k" "k \<le> 4" and w: "1 \<le> ?w"
    and ttl: "ttl = drop (k + ?w) l" "ttl \<noteq> []"
    by (auto simp: heading_line_def Let_def split: if_splits)
  from ttl have len: "k + ?w < length l" by simp
  from len have hk: "hashes (l @ r) = k"
    using k(1) by (simp add: run_append_short)
  from len have dk: "drop k (l @ r) = drop k l @ r" by simp
  from len k(1) have "run is_space (drop k l) < length (drop k l)" by simp
  then have wk: "run is_space (drop k (l @ r)) = ?w"
    using k(1) dk by (simp add: run_append_short)
  from len have dt: "drop (k + ?w) (l @ r) = ttl @ r"
    by (simp add: ttl(1))
  from assms(1) ttl(1) have "NL \<notin> set ttl"
    by (auto dest: in_set_dropD)
  then have n: "run (\<lambda>c. c \<noteq> NL) (ttl @ r) = length ttl"
    using assms(3) by (rule run_not_NL_title)
  have "match_heading (l @ r) = Some (hashes (l @ r), spaces_after (l @ r),
      run (\<lambda>c. c \<noteq> NL) (drop (hashes (l @ r) + spaces_after (l @ r)) (l @ r)))"
  proof (rule match_heading_title)
    show "2 \<le> hashes (l @ r)" "hashes (l @ r) \<le> 4"
      unfolding hk using k by simp_all
    show "1 \<le> spaces_after (l @ r)"
      unfolding hk wk using w .
    show "drop (hashes (l @ r) + spaces_after (l @ r)) (l @ r) \<noteq> []"
      unfolding hk wk dt using ttl(2) by simp
  qed
  then have m: "match_heading (l @ r) = Some (k, ?w, length ttl)"
    unfolding hk wk dt n .
  have total: "k + ?w + length ttl = length l"
    using len by (simp add: ttl(1))
  have "sub_headings rt prev (l @ r) =
     process_title rt (take (k + ?w + length ttl) (l @ r)) (take k (l @ r))
         (take (length ttl) (drop (k + ?w) (l @ r)))
       @ sub_headings rt (Some (last (take (k + ?w + length ttl) (l @ r))))
           (drop (k + ?w + length ttl) (l @ r))"
    using assms(2) m by (rule sub_headings_match)
  also have "take (k + ?w + length ttl) (l @ r) = l"
    by (simp add: total)
  also have "drop (k + ?w + length ttl) (l @ r) = r"
    by (simp add: total)
  also have "take k (l @ r) = replicate k HASH"
    using len k(1) take_hashes [of l] by simp
  also have "take (length ttl) (drop (k + ?w) (l @ r)) = ttl"
    unfolding dt by simp
  also have "process_title rt l (replicate k HASH) ttl = title_line rt l"
    by (simp add: process_title_def title_line_def assms(4) title_words_map
        split: list.splits)
  finally show ?thesis .
qed

lemma no_match_line:
  assumes "at_eol r" "heading_line l = None" "\<not> bare_marker l"
  shows "match_heading (l @ r) = None"
proof (cases "2 \<le> hashes l \<and> hashes l \<le> 4")
  case False
  with assms(1) have "\<not> (2 \<le> hashes (l @ r) \<and> hashes (l @ r) \<le> 4)"
    by (simp add: hashes_append_eol)
  then show ?thesis by (subst match_heading_eq) (rule if_not_P)
next
  case True
  let ?h = "hashes l"
  from True assms(3) have "\<not> list_all is_space (drop ?h l)"
    by (simp add: bare_marker_def Let_def)
  then have short: "run is_space (drop ?h l) < length (drop ?h l)"
    using run_all [of "drop ?h l" is_space] run_le_length [of is_space "drop ?h l"]
    by (auto simp: list_all_iff simp del: length_drop)
  then have "drop (?h + spaces_after l) l \<noteq> []" by simp
  with True assms(2) have w0: "spaces_after l = 0"
    by (auto simp: heading_line_def Let_def split: if_splits)
  from short have "?h \<le> length l" by simp
  then have "drop ?h (l @ r) = drop ?h l @ r" by simp
  with short w0 have "run is_space (drop ?h (l @ r)) = 0"
    by (simp add: run_append_short del: length_drop)
  with assms(1) show ?thesis
    by (simp add: match_heading_eq hashes_append_eol greedy_empty)
qed

lemma plain_line_step:
  assumes "NL \<notin> set l" "at_eol r" "heading_line l = None" "\<not> bare_marker l"
  shows "sub_headings rt prev (l @ r) =
     l @ (case r of [] \<Rightarrow> [] | c # r' \<Rightarrow> NL # sub_headings rt (Some NL) r')"
proof (cases l)
  case Nil
  with assms(2) show ?thesis by (simp add: sub_headings_eol)
next
  case (Cons c l')
  from assms have "match_heading (l @ r) = None" by (intro no_match_line)
  with Cons have "sub_headings rt prev (l @ r) = c # sub_headings rt (Some c) (l' @ r)"
    by (simp add: sub_headings_copy)
  also from assms(1) Cons have "sub_headings rt (Some c) (l' @ r)
      = l' @ sub_headings rt (Some (last (c # l'))) r"
    by (intro sub_headings_line) auto
  also have "sub_headings rt (Some (last (c # l'))) r
      = (case r of [] \<Rightarrow> [] | c # r' \<Rightarrow> NL # sub_headings rt (Some NL) r')"
    using assms(2) by (rule sub_headings_eol)
  finally show ?thesis using Cons by simp
qed

lemma bare_marker_unchanged:
  assumes "NL \<notin> set l" "bare_marker l"
  shows "sub_headings rt prev l = l"
proof -
  let ?h = "hashes l"
  from assms(2) have h: "2 \<le> ?h" and sp: "\<forall>c \<in> set (drop ?h l). is_space c"
    by (simp_all add: bare_marker_def list_all_iff Let_def)
  from h run_le_length [of "\<lambda>c. c = HASH" l] obtain c l' where l: "l = c # l'"
    by (cases l) auto
  with assms(1) have c: "c \<noteq> NL" by auto
  show ?thesis
  proof (cases "at_bol prev \<and> match_heading l \<noteq> None")
    case False
    then have "\<not> at_bol prev \<or> match_heading (c # l') = None"
      using l by (cases "match_heading (c # l')") auto
    then have "sub_headings rt prev (c # l') = c # sub_headings rt (Some c) l'"
      by (rule sub_headings_copy)
    with l have "sub_headings rt prev l = c # sub_headings rt (Some c) (l' @ [])"
      by simp
    also from assms(1) l c have "sub_headings rt (Some c) (l' @ []) = l' @ sub_headings rt (Some (last (c # l'))) []"
      by (intro sub_headings_line) auto
    finally show ?thesis using l by simp
  next
    case True
    then obtain k j n where m: "match_heading l = Some (k, j, n)" by auto
    note d = match_heading_SomeD [OF m]
    let ?whole = "take (k + j + n) l" and ?rest = "drop (k + j + n) l"
    have "set (take n (drop (k + j) l)) \<subseteq> set (drop k l)"
      by (metis drop_drop add.commute set_drop_subset set_take_subset subset_trans)
    with sp d(1) have "\<forall>c \<in> set (take n (drop (k + j) l)). is_space c" by auto
    then have "py_split (take n (drop (k + j) l)) = []" by (rule py_split_spaces)
    then have p: "process_title rt ?whole (take k l) (take n (drop (k + j) l)) = ?whole"
      by (simp add: process_title_def)
    from d(2) l have "?whole \<noteq> []" by auto
    then have "last ?whole \<in> set l"
      by (meson in_set_takeD last_in_set)
    with assms(1) have lw: "last ?whole \<noteq> NL" by auto
    have "NL \<notin> set ?rest" using assms(1) by (auto dest: in_set_dropD)
    with lw have "sub_headings rt (Some (last ?whole)) (?rest @ [])
        = ?rest @ sub_headings rt (Some (last (last ?whole # ?rest))) []"
      by (intro sub_headings_line)
    then have r: "sub_headings rt (Some (last ?whole)) ?rest = ?rest" by simp
    from True m have "sub_headings rt prev l =
      process_title rt ?whole (take k l) (take n (drop (k + j) l))
        @ sub_headings rt (Some (last ?whole)) ?rest"
      by (intro sub_headings_match) auto
    with p r show ?thesis by simp
  qed
qed

lemma bare_marker_title_line: "bare_marker l \<Longrightarrow> title_line rt l = l"
proof -
  assume "bare_marker l"
  then have "\<forall>c \<in> set (drop (hashes l) l). is_space c"
    by (simp add: bare_marker_def list_all_iff Let_def)
  then have "drop (hashes l + spaces_after l) l = []"
    using drop_run_Nil [of is_space "drop (hashes l) l"] by (simp add: add.commute)
  then have "heading_line l = None"
    by (simp add: heading_line_def Let_def)
  then show ?thesis by (simp add: title_line_def)
qed

lemma line_step:
  assumes "NL \<notin> set l" "at_bol prev" "at_eol r" "\<not> bare_marker l \<or> r = []"
  shows "sub_headings rt prev (l @ r) =
     title_line rt l @ (case r of [] \<Rightarrow> [] | c # r' \<Rightarrow> NL # sub_headings rt (Some NL) r')"
proof (cases "heading_line l")
  case (Some a)
  then obtain k ttl where "heading_line l = Some (k, ttl)" by (cases a) auto
  with assms have "sub_headings rt prev (l @ r) = title_line rt l @ sub_headings rt (Some (last l)) r"
    by (intro heading_line_step)
  also have "sub_headings rt (Some (last l)) r
      = (case r of [] \<Rightarrow> [] | c # r' \<Rightarrow> NL # sub_headings rt (Some NL) r')"
    using assms(3) by (rule sub_headings_eol)
  finally show ?thesis .
next
  case None
  show ?thesis
  proof (cases "bare_marker l")
    case True
    with assms(4) have "r = []" by simp
    with True assms(1) show ?thesis
      by (simp add: bare_marker_unchanged bare_marker_title_line)
  next
    case False
    with assms None have "sub_headings rt prev (l @ r) =
       l @ (case r of [] \<Rightarrow> [] | c # r' \<Rightarrow> NL # sub_headings rt (Some NL) r')"
      by (intro plain_line_step)
    with None show ?thesis by (simp add: title_line_def)
  qed
qed

section \<open>Applying the transform twice\<close>

lemma split_ws_subset: "w \<in> set (split_ws cur t) \<Longrightarrow> set w \<subseteq> set cur \<union> set t"
proof (induction t arbitrary: cur)
  case Nil
  then show ?case by (auto split: if_splits)
next
  case (Cons a t)
  show ?case
  proof (cases "is_space a")
    case True
    with Cons.prems have "w = cur \<or> w \<in> set (split_ws [] t)"
      by (auto split: if_splits)
    then show ?thesis using Cons.IH [of "[]"] by auto
  next
    case False
    with Cons.prems have "w \<in> set (split_ws (cur @ [a]) t)" by simp
    then show ?thesis using Cons.IH [of "cur @ [a]"] by auto
  qed
qed

lemma py_split_subset: "w \<in> set (py_split t) \<Longrightarrow> set w \<subseteq> set t"
  using split_ws_subset [of w "[]" t] by (simp add: py_split_def)

lemma sub_headings_first:
  "c \<noteq> NL \<Longrightarrow> sub_headings rt (Some c) t = (case t of [] \<Rightarrow> [] | d # t2 \<Rightarrow> d # sub_headings rt (Some d) t2)"
  by (cases t) (simp_all add: sub_headings_copy)

lemma match_heading_None_kept:
  assumes "match_heading (c # s) = None"
  shows "match_heading (c # sub_headings rt (Some c) s) = None"
proof (cases "c = HASH")
  case False
  then show ?thesis by (rule match_heading_not_hash)
next
  case True
  let ?s = "c # s"
  let ?h = "hashes ?s"
  define t where "t = drop ?h ?s"
  define t' where "t' = sub_headings rt (Some HASH) t"
  from True have h1: "?h = Suc (hashes s)" by (simp add: run_Cons)
  have s: "?s = replicate ?h HASH @ t"
    unfolding t_def using take_hashes [of ?s] append_take_drop_id [of ?h ?s] by simp
  with h1 True have s': "s = replicate (hashes s) HASH @ t" by simp
  have "sub_headings rt (Some c) (replicate (hashes s) HASH @ t)
      = replicate (hashes s) HASH @ sub_headings rt (Some (last (c # replicate (hashes s) HASH))) t"
    using True by (intro sub_headings_line) auto
  moreover have "last (c # replicate (hashes s) HASH) = HASH"
    using True by (cases "hashes s") simp_all
  ultimately have X: "c # sub_headings rt (Some c) s = replicate ?h HASH @ t'"
    using s' h1 True by (simp add: t'_def)
  have t'_shape: "t' = (case t of [] \<Rightarrow> [] | d # t2 \<Rightarrow> d # sub_headings rt (Some d) t2)"
    unfolding t'_def by (rule sub_headings_first) simp
  have t_head: "t = d # t2 \<Longrightarrow> d \<noteq> HASH" for d t2
    using dropWhile_run_head [of "\<lambda>c. c = HASH" ?s d t2] by (simp add: t_def)
  have "run (\<lambda>c. c = HASH) t' = 0"
    using t_head by (cases t) (auto simp: t'_shape run_Cons)
  then have h': "hashes (replicate ?h HASH @ t') = ?h"
    by (simp add: run_append)
  show ?thesis
  proof (cases "2 \<le> ?h \<and> ?h \<le> 4")
    case False
    then have "\<not> (2 \<le> hashes (c # sub_headings rt (Some c) s)
        \<and> hashes (c # sub_headings rt (Some c) s) \<le> 4)"
      unfolding X h' .
    then show ?thesis by (subst match_heading_eq) (rule if_not_P)
  next
    case range: True
    have "spaces_after ?s = 0 \<or> drop (?h + spaces_after ?s) ?s = []"
    proof (rule ccontr)
      assume "\<not> ?thesis"
      with range have "match_heading ?s = Some (?h, spaces_after ?s,
          run (\<lambda>c. c \<noteq> NL) (drop (?h + spaces_after ?s) ?s))"
        by (intro match_heading_title) auto
      with assms show False by simp
    qed
    then show ?thesis
    proof
      assume "drop (?h + spaces_after ?s) ?s = []"
      then have "drop (run is_space t) t = []"
        unfolding t_def by (simp add: add.commute)
      then have "\<forall>c \<in> set t. is_space c" by (simp only: drop_run_Nil)
      then have "HASH \<notin> set t" by auto
      then have "t' = t" unfolding t'_def by (rule sub_headings_no_hash)
      with X s assms show ?thesis by simp
    next
      assume "spaces_after ?s = 0"
      then have r0: "run is_space t = 0" by (simp add: t_def)
      have "run is_space t' = 0"
        using r0 by (cases t) (auto simp: t'_shape run_Cons split: if_splits)
      moreover have "drop ?h (replicate ?h HASH @ t') = t'" by simp
      ultimately have "spaces_after (replicate ?h HASH @ t') = 0"
        unfolding h' by simp
      then show ?thesis
        unfolding X by (subst match_heading_eq) (simp add: greedy_empty)
    qed
  qed
qed

lemma match_rest_eol:
  assumes "match_heading s = Some (k, j, n)"
  shows "at_eol (drop (k + j + n) s)" and "NL \<notin> set (take n (drop (k + j) s))"
    and "take n (drop (k + j) s) \<noteq> []"
proof -
  note d = match_heading_SomeD [OF assms]
  have "drop (k + j + n) s = drop n (drop (k + j) s)" by (simp add: add.commute)
  also have "\<dots> = dropWhile (\<lambda>c. c \<noteq> NL) (drop (k + j) s)"
    unfolding d(6) by (rule drop_run)
  finally show "at_eol (drop (k + j + n) s)" by (simp only: at_eol_dropWhile)
  have tk: "take n (drop (k + j) s) = takeWhile (\<lambda>c. c \<noteq> NL) (drop (k + j) s)"
    unfolding d(6) by (rule take_run)
  then show "NL \<notin> set (take n (drop (k + j) s))"
    by (auto dest: set_takeWhileD)
  have "takeWhile (\<lambda>c. c \<noteq> NL) (drop (k + j) s) \<noteq> []"
  proof
    assume "takeWhile (\<lambda>c. c \<noteq> NL) (drop (k + j) s) = []"
    then have "run (\<lambda>c. c \<noteq> NL) (drop (k + j) s) = 0" by (simp add: run_def)
    with d(6,7) show False by simp
  qed
  with tk show "take n (drop (k + j) s) \<noteq> []" by simp
qed

lemma heading_line_canonical:
  assumes "T = py_join [SPACE] (w # ws)" "\<forall>x \<in> set (w # ws). wordlike x"
  shows "heading_line (replicate k HASH @ [SPACE] @ T) = (if 2 \<le> k \<and> k \<le> 4 then Some (k, T) else None)"
proof -
  from assms obtain c r where T: "T = c # r" "\<not> is_space c"
    using py_join_head [of w ws] by auto
  let ?P = "replicate k HASH @ [SPACE] @ T"
  have h: "hashes ?P = k" by (simp add: run_append run_Cons)
  have "drop k ?P = SPACE # T" by simp
  then have w: "run is_space (drop k ?P) = 1"
    using T by (simp add: run_Cons)
  have "drop (k + 1) ?P = T" by simp
  with T show ?thesis
    unfolding heading_line_def Let_def h w by simp
qed

lemma sub_headings_idem:
  "\<forall>t \<in> set (heading_titles p s). stable_title rt t \<Longrightarrow> at_bol q = at_bol p \<Longrightarrow>
   sub_headings rt q (sub_headings rt p s) = sub_headings rt p s"
proof (induction "length s" arbitrary: s p q rule: less_induct)
  case less
  show ?case
  proof (cases "at_bol p \<and> match_heading s \<noteq> None")
    case False
    show ?thesis
    proof (cases s)
      case Nil
      then show ?thesis by simp
    next
      case (Cons c s')
      from False Cons have np: "\<not> at_bol p \<or> match_heading (c # s') = None"
        by (cases "match_heading (c # s')") auto
      then have out: "sub_headings rt p (c # s') = c # sub_headings rt (Some c) s'"
        by (rule sub_headings_copy)
      from np have "heading_titles p (c # s') = heading_titles (Some c) s'"
        by (rule heading_titles_copy)
      with less.prems(1) Cons
      have st: "\<forall>t \<in> set (heading_titles (Some c) s'). stable_title rt t" by simp
      have IH: "sub_headings rt (Some c) (sub_headings rt (Some c) s') = sub_headings rt (Some c) s'"
        using st Cons by (intro less.hyps) auto
      from np less.prems(2)
      have "\<not> at_bol q \<or> match_heading (c # sub_headings rt (Some c) s') = None"
        by (auto intro: match_heading_None_kept)
      then have "sub_headings rt q (c # sub_headings rt (Some c) s')
          = c # sub_headings rt (Some c) (sub_headings rt (Some c) s')"
        by (rule sub_headings_copy)
      with out IH Cons show ?thesis by simp
    qed
  next
    case True
    then obtain k j n where m: "match_heading s = Some (k, j, n)" and bol: "at_bol p"
      by auto
    note d = match_heading_SomeD [OF m]
    note e = match_rest_eol [OF m]
    let ?whole = "take (k + j + n) s"
    let ?title = "take n (drop (k + j) s)"
    let ?rest = "drop (k + j + n) s"
    have out: "sub_headings rt p s =
        process_title rt ?whole (take k s) ?title @ sub_headings rt (Some (last ?whole)) ?rest"
      using bol m by (rule sub_headings_match)
    have whole: "?whole = take (k + j) s @ ?title"
      by (simp add: take_add)
    with e(3) have "last ?whole = last ?title" by simp
    with e(2,3) have lw: "last ?whole \<noteq> NL"
      by (metis last_in_set)
    from bol m have "heading_titles p s = ?title # heading_titles (Some (last ?whole)) ?rest"
      by (rule heading_titles_match)
    with less.prems(1) have st: "stable_title rt ?title"
      and st_rest: "\<forall>t \<in> set (heading_titles (Some (last ?whole)) ?rest). stable_title rt t"
      by simp_all
    show ?thesis
    proof (cases "py_split ?title")
      case Nil
      have "j \<noteq> spaces_after s"
      proof
        assume j: "j = spaces_after s"
        from e(3) obtain c r where cr: "drop (k + j) s = c # r"
          by (cases "drop (k + j) s") auto
        then have "drop (run is_space (drop k s)) (drop k s) = c # r"
          using j d(1) by (simp add: add.commute)
        then have "\<not> is_space c" by (rule dropWhile_run_head)
        moreover from cr d(7) have "?title = c # take (n - 1) r"
          by (cases n) simp_all
        ultimately have "py_split ?title \<noteq> []"
          by (simp add: py_split_not_space)
        with Nil show False by simp
      qed
      with d(8) have "drop (k + spaces_after s) s = []" by simp
      then have "drop (run is_space (drop k s)) (drop k s) = []"
        using d(1) by (simp add: add.commute)
      then have sp: "\<forall>c \<in> set (drop k s). is_space c" by (simp only: drop_run_Nil)
      have "set ?rest \<subseteq> set (drop k s)"
        by (metis add.assoc add.commute drop_drop set_drop_subset)
      with sp not_space_hash have "HASH \<notin> set ?rest" by blast
      then have "sub_headings rt (Some (last ?whole)) ?rest = ?rest"
        by (rule sub_headings_no_hash)
      with out Nil have "sub_headings rt p s = s"
        by (simp add: process_title_def)
      moreover have "sub_headings rt q s = sub_headings rt p s"
        using less.prems(2) by (rule sub_headings_cong)
      ultimately show ?thesis by simp
    next
      case (Cons w0 ws)
      let ?W = "str_capitalize rt w0 # map (canonical_word rt) ws"
      let ?T = "py_join [SPACE] ?W"
      let ?P = "replicate k HASH @ [SPACE] @ ?T"
      let ?X = "sub_headings rt (Some (last ?whole)) ?rest"
      from st Cons have W0: "wordlike (str_capitalize rt w0)"
        and idem: "str_capitalize rt (str_capitalize rt w0) = str_capitalize rt w0"
        and C: "\<forall>x \<in> set ws. wordlike (canonical_word rt x) \<and>
               canonical_word rt (canonical_word rt x) = canonical_word rt x"
        by (simp_all add: stable_title_def list_all_iff)
      from W0 C have W: "\<forall>x \<in> set ?W. wordlike x" by auto
      have idems: "map (canonical_word rt \<circ> canonical_word rt) ws = map (canonical_word rt) ws"
        by (rule map_cong [OF refl]) (simp add: C)
      have pfx: "take k s = replicate k HASH"
        using take_hashes [of s] d(1) by simp
      have P: "process_title rt ?whole (take k s) ?title = ?P"
        by (simp add: process_title_def Cons title_words_map pfx)
      have hl: "heading_line ?P = Some (k, ?T)"
        using heading_line_canonical [OF refl, of "str_capitalize rt w0" "map (canonical_word rt) ws" k]
          W d(2,3) by simp
      have split: "py_split ?T = ?W"
        using W by (rule py_split_join)
      have tl: "title_line rt ?P = ?P"
        unfolding title_line_def hl using idem split by (simp add: idems)
      have nlT: "NL \<notin> set ?T"
        using py_join_words [OF W] by blast
      then have nlP: "NL \<notin> set ?P" by simp
      obtain c r where T: "?T = c # r"
        using py_join_head [of "str_capitalize rt w0" "map (canonical_word rt) ws"] W by auto
      then have "last ?P = last ?T" by simp
      with T nlT have lp: "last ?P \<noteq> NL"
        by (metis last_in_set list.simps(3))
      have eolX: "at_eol ?X"
        using e(1) by (subst sub_headings_eol) (auto split: list.splits)
      have bolq: "at_bol q" using bol less.prems(2) by simp
      have "sub_headings rt q (?P @ ?X) = title_line rt ?P @ sub_headings rt (Some (last ?P)) ?X"
        using nlP bolq eolX hl by (rule heading_line_step)
      also have "sub_headings rt (Some (last ?P)) ?X = ?X"
      proof (rule less.hyps)
        show "length ?rest < length s"
          using d(2) match_heading_length(2) [OF m] by simp
        show "\<forall>t \<in> set (heading_titles (Some (last ?whole)) ?rest). stable_title rt t"
          by (rule st_rest)
        show "at_bol (Some (last ?P)) = at_bol (Some (last ?whole))"
          using lp lw by simp
      qed
      finally show ?thesis
        unfolding out P tl .
    qed
  qed
qed

lemma sub_headings_lines:
  assumes "at_bol prev" "\<forall>l \<in> set lines. NL \<notin> set l"
    "\<forall>l \<in> set (butlast lines). \<not> bare_marker l"
  shows "sub_headings rt prev (py_join [NL] lines) = py_join [NL] (map (title_line rt) lines)"
  using assms
proof (induction "[NL]" lines arbitrary: prev rule: py_join.induct)
  case 1
  show ?case by simp
next
  case (2 x)
  then have "sub_headings rt prev (x @ []) = title_line rt x @ []"
    by (subst line_step) simp_all
  then show ?case by simp
next
  case (3 x y ys)
  from 3 have "sub_headings rt prev (x @ NL # py_join [NL] (y # ys))
      = title_line rt x @ NL # sub_headings rt (Some NL) (py_join [NL] (y # ys))"
    by (subst line_step) simp_all
  moreover from 3 have "sub_headings rt (Some NL) (py_join [NL] (y # ys))
      = py_join [NL] (map (title_line rt) (y # ys))"
    by (intro "3.hyps") simp_all
  ultimately show ?case by simp
qed

lemma standardize_titles_one_line:
  "NL \<notin> set l \<Longrightarrow> standardize_titles rt l = title_line rt l"
  using sub_headings_lines [of None "[l]"] by (simp add: standardize_titles_def)


section \<open>The basic runtime: facts\<close>

lemma lower_char_space [simp]: "is_space (basic_lower_char c) \<longleftrightarrow> is_space c"
  unfolding basic_lower_char_def is_space_def polish_upper_def by auto

lemma upper_char_space [simp]: "is_space (basic_upper_char c) \<longleftrightarrow> is_space c"
  unfolding basic_upper_char_def is_space_def polish_lower_def by auto

lemma lower_char_idem [simp]: "basic_lower_char (basic_lower_char c) = basic_lower_char c"
  unfolding basic_lower_char_def polish_upper_def by auto

lemma upper_char_idem [simp]: "basic_upper_char (basic_upper_char c) = basic_upper_char c"
  unfolding basic_upper_char_def polish_lower_def by auto

lemma upper_char_329: "basic_upper_char c = 329 \<longleftrightarrow> c = 329"
  unfolding basic_upper_char_def polish_lower_def by auto

lemma basic_lower_idem [simp]: "basic_lower (basic_lower w) = basic_lower w"
  by (simp add: basic_lower_def)

lemma wordlike_lower [simp]: "wordlike (basic_lower w) \<longleftrightarrow> wordlike w"
  by (auto simp: wordlike_def basic_lower_def)

lemma title_char_space:
  assumes "c' \<in> set (basic_title_char c)" "\<not> is_space c"
  shows "\<not> is_space c'"
proof (cases "c = 329")
  case True
  with assms(1) have "c' = 700 \<or> c' = 78" by (simp add: basic_title_char_def)
  then show ?thesis by (auto simp: is_space_def)
next
  case False
  with assms show ?thesis by (simp add: basic_title_char_def)
qed

lemma title_char_not_Nil [simp]: "basic_title_char c \<noteq> []"
  by (simp add: basic_title_char_def)

lemma wordlike_capitalize:
  assumes "wordlike w"
  shows "wordlike (basic_capitalize w)"
proof (cases w)
  case Nil
  with assms show ?thesis by (simp add: wordlike_def)
next
  case (Cons c cs)
  with assms have c: "\<not> is_space c" and cs: "\<forall>x \<in> set cs. \<not> is_space x"
    by (simp_all add: wordlike_def)
  have "\<forall>x \<in> set (basic_title_char c). \<not> is_space x"
    using c title_char_space by blast
  moreover have "\<forall>x \<in> set (basic_lower cs). \<not> is_space x"
    using cs by (simp add: basic_lower_def)
  ultimately show ?thesis
    using Cons by (auto simp: wordlike_def basic_capitalize_def)
qed

lemma capitalize_idem:
  assumes "329 \<notin> set w"
  shows "basic_capitalize (basic_capitalize w) = basic_capitalize w"
proof (cases w)
  case Nil
  then show ?thesis by (simp add: basic_capitalize_def)
next
  case (Cons c cs)
  with assms have "c \<noteq> 329" by auto
  then have "basic_upper_char c \<noteq> 329" by (simp add: upper_char_329)
  with Cons \<open>c \<noteq> 329\<close> show ?thesis
    by (simp add: basic_capitalize_def basic_title_char_def)
qed

lemma basic_runtime_simps [simp]:
  "str_lower basic_runtime = basic_lower" "str_capitalize basic_runtime = basic_capitalize"
  "isalnum basic_runtime = basic_alnum" "ignorecase basic_runtime = basic_ignorecase"
  by (simp_all add: basic_runtime_def)

lemma wordlike_canonical: "wordlike w \<Longrightarrow> wordlike (canonical_word basic_runtime w)"
  using proper_nouns_wordlike
  by (auto simp: canonical_word_def find_Some_iff split: option.splits)

lemma canonical_idem:
  "canonical_word basic_runtime (canonical_word basic_runtime w) = canonical_word basic_runtime w"
proof (cases "find (\<lambda>pn. basic_lower pn = basic_lower w) PROPER_NOUNS")
  case None
  then show ?thesis by (simp add: canonical_word_def)
next
  case (Some pn)
  then have "basic_lower pn = basic_lower w" by (auto simp: find_Some_iff)
  with Some show ?thesis by (simp add: canonical_word_def)
qed

text \<open>On a title without U+0149 the basic runtime is stable.\<close>

lemma basic_stable_title:
  assumes "329 \<notin> set t"
  shows "stable_title basic_runtime t"
proof (cases "py_split t")
  case Nil
  then show ?thesis by (simp add: stable_title_def)
next
  case (Cons w ws)
  then have words: "\<forall>x \<in> set (w # ws). wordlike x"
    using py_split_wordlike [of _ t] by auto
  have "set w \<subseteq> set t"
    using py_split_subset [of w t] Cons by simp
  with assms have "329 \<notin> set w" by auto
  then have "basic_capitalize (basic_capitalize w) = basic_capitalize w"
    by (rule capitalize_idem)
  moreover from words have "wordlike (basic_capitalize w)"
    by (simp add: wordlike_capitalize)
  moreover from words have "\<forall>x \<in> set ws. wordlike (canonical_word basic_runtime x)"
    by (simp add: wordlike_canonical)
  ultimately show ?thesis
    by (simp add: stable_title_def Cons list_all_iff canonical_idem)
qed

lemma heading_titles_subset:
  "t \<in> set (heading_titles p s) \<Longrightarrow> set t \<subseteq> set s"
proof (induction "length s" arbitrary: s p rule: less_induct)
  case less
  show ?case
  proof (cases "at_bol p \<and> match_heading s \<noteq> None")
    case False
    show ?thesis
    proof (cases s)
      case Nil
      with less.prems show ?thesis by simp
    next
      case (Cons c s')
      from False Cons have "\<not> at_bol p \<or> match_heading (c # s') = None"
        by (cases "match_heading (c # s')") auto
      then have "heading_titles p (c # s') = heading_titles (Some c) s'"
        by (rule heading_titles_copy)
      with less.prems Cons have "t \<in> set (heading_titles (Some c) s')" by simp
      then have "set t \<subseteq> set s'"
        using Cons by (intro less.hyps) simp_all
      with Cons show ?thesis by auto
    qed
  next
    case True
    then obtain k j n where m: "match_heading s = Some (k, j, n)" and bol: "at_bol p"
      by auto
    let ?rest = "drop (k + j + n) s"
    from bol m have "heading_titles p s = take n (drop (k + j) s)
        # heading_titles (Some (last (take (k + j + n) s))) ?rest"
      by (rule heading_titles_match)
    with less.prems have "t = take n (drop (k + j) s)
        \<or> t \<in> set (heading_titles (Some (last (take (k + j + n) s))) ?rest)"
      by simp
    then show ?thesis
    proof
      assume "t = take n (drop (k + j) s)"
      then show ?thesis by (auto dest: in_set_takeD in_set_dropD)
    next
      assume "t \<in> set (heading_titles (Some (last (take (k + j + n) s))) ?rest)"
      moreover have "length ?rest < length s"
        using match_heading_length [OF m] by simp
      ultimately have "set t \<subseteq> set ?rest" by (intro less.hyps)
      then show ?thesis by (auto dest: in_set_dropD)
    qed
  qed
qed

lemma basic_stable:
  assumes "329 \<notin> set s"
  shows "\<forall>t \<in> set (heading_titles p s). stable_title basic_runtime t"
proof
  fix t assume "t \<in> set (heading_titles p s)"
  then have "set t \<subseteq> set s" by (rule heading_titles_subset)
  with assms have "329 \<notin> set t" by auto
  then show "stable_title basic_runtime t" by (rule basic_stable_title)
qed

lemmas eval_simps = heading_line_def title_line_def spec_title_line_def bare_marker_def
  run_def py_split_def basic_runtime_def basic_capitalize_def spec_capitalize_def basic_title_char_def basic_lower_def
  basic_lower_char_def basic_upper_char_def polish_lower_def polish_upper_def is_space_def
  canonical_word_def PROPER_NOUNS_def Let_def U_simps

section \<open>Title casing: results\<close>

text \<open>
  Claim C1, as the code has it. A text is its lines, joined by newlines. A line is a heading
  when it starts with two to four hashes, at least one whitespace character and a further
  character (\<open>heading_line\<close>); \<open>title_line\<close> turns a heading into its marker, one space and
  its words joined by single spaces, the first word capitalised as \<open>str.capitalize\<close> does
  (first character to title case, the others to lower case) and each later word replaced
  by the registry entry it equals up to case, or else lowered; every other line is left
  as it is. \<open>standardize_titles\<close> does this to each line, in every text in which no line but
  the last is a marker of two to four hashes followed by nothing but whitespace. (After
  such a line \<open>\s+\<close> runs on over the newline; the theorem says nothing about those texts.)
\<close>

theorem standardize_titles_lines:
  assumes "\<forall>l \<in> set lines. NL \<notin> set l" and "\<forall>l \<in> set (butlast lines). \<not> bare_marker l"
  shows "standardize_titles rt (py_join [NL] lines) = py_join [NL] (map (title_line rt) lines)"
  unfolding standardize_titles_def using assms by (intro sub_headings_lines) simp_all

theorem standardize_titles_lines_witness:
  "standardize_titles basic_runtime
       (U ''### google AND zapier Integration\<newline>plain text\<newline>##  '')
     = U ''### Google and Zapier integration\<newline>plain text\<newline>##  ''"
  using standardize_titles_lines
    [of "[U ''### google AND zapier Integration'', U ''plain text'', U ''##  '']" basic_runtime]
  by (simp add: eval_simps)

text \<open>
  Claim C1 as stated fails: it leaves the letters after the first one of the first word
  as given (\<open>spec_title_line\<close>), and the code lowers them.
\<close>

theorem standardize_titles_first_word_counterexample:
  "standardize_titles basic_runtime (U ''## hELLO'') = U ''## Hello''
   \<and> spec_title_line basic_runtime (U ''## hELLO'') = U ''## HELLO''"
  by (simp add: standardize_titles_one_line eval_simps)

text \<open>
  Claim C9, as the code has it. Applying \<open>standardize_titles\<close> twice gives what applying it
  once gives, on every text in which every title the pattern matches is stable: its first
  word capitalised and its later words in their canonical form are words again, which
  \<open>str.capitalize\<close> and the canonical form leave as they are.
\<close>

theorem standardize_titles_idempotent:
  "\<forall>t \<in> set (heading_titles None md). stable_title rt t \<Longrightarrow>
   standardize_titles rt (standardize_titles rt md) = standardize_titles rt md"
  unfolding standardize_titles_def by (rule sub_headings_idem) simp_all

theorem standardize_titles_idempotent_witness:
  "list_all (stable_title basic_runtime) (heading_titles None (U ''## hELLO wOrld\<newline>text''))
   \<and> standardize_titles basic_runtime (U ''## hELLO wOrld\<newline>text'') = U ''## Hello world\<newline>text''
   \<and> standardize_titles basic_runtime
         (standardize_titles basic_runtime (U ''## hELLO wOrld\<newline>text''))
       = standardize_titles basic_runtime (U ''## hELLO wOrld\<newline>text'')"
proof -
  have "329 \<notin> set (U ''## hELLO wOrld\<newline>text'')"
    by (simp add: U_simps)
  then have a: "\<forall>t \<in> set (heading_titles None (U ''## hELLO wOrld\<newline>text'')).
      stable_title basic_runtime t"
    by (rule basic_stable)
  have "standardize_titles basic_runtime (py_join [NL] [U ''## hELLO wOrld'', U ''text''])
      = py_join [NL] (map (title_line basic_runtime) [U ''## hELLO wOrld'', U ''text''])"
    unfolding standardize_titles_def
    by (rule sub_headings_lines) (simp_all add: eval_simps)
  then have b: "standardize_titles basic_runtime (U ''## hELLO wOrld\<newline>text'')
      = U ''## Hello world\<newline>text''"
    by (simp add: eval_simps)
  from a have "list_all (stable_title basic_runtime)
      (heading_titles None (U ''## hELLO wOrld\<newline>text''))"
    by (simp only: list_all_iff)
  with standardize_titles_idempotent [OF a] b show ?thesis by blast
qed

text \<open>
  Claim C9 as stated fails on the heading whose only word is U+0149: \<open>str.capitalize\<close>
  turns it into U+02BC followed by \<open>N\<close>, and the second application lowers that \<open>N\<close>.
\<close>

theorem standardize_titles_twice_counterexample:
  "standardize_titles basic_runtime (U ''## '' @ [329]) = U ''## '' @ [700, 78]
   \<and> standardize_titles basic_runtime (standardize_titles basic_runtime (U ''## '' @ [329]))
       = U ''## '' @ [700, 110]"
  by (simp add: standardize_titles_one_line eval_simps)

section \<open>Keyword emphasis: facts\<close>

lemma greedy_Suc: "greedy lo (Suc h) = (if lo \<le> Suc h then Suc h # greedy lo h else [])"
  by (simp add: greedy_def)

lemma greedy_0: "greedy lo 0 = (if lo = 0 then [0] else [])"
  by (simp add: greedy_def)

lemma first_some_greedy_Some:
  "first_some f (greedy lo hi) = Some y \<Longrightarrow>
   \<exists>j. lo \<le> j \<and> j \<le> hi \<and> f j = Some y \<and> (\<forall>j'. j < j' \<and> j' \<le> hi \<longrightarrow> f j' = None)"
proof (induction hi)
  case 0
  then show ?case by (auto simp: greedy_0 split: if_splits option.splits)
next
  case (Suc h)
  show ?case
  proof (cases "lo \<le> Suc h")
    case False
    with Suc.prems show ?thesis by (simp add: greedy_Suc)
  next
    case True
    show ?thesis
    proof (cases "f (Suc h)")
      case (Some z)
      with True Suc.prems have "f (Suc h) = Some y" by (simp add: greedy_Suc)
      with True show ?thesis by (intro exI [of _ "Suc h"]) auto
    next
      case None
      with True Suc.prems have "first_some f (greedy lo h) = Some y" by (simp add: greedy_Suc)
      then obtain j where j: "lo \<le> j" "j \<le> h" "f j = Some y"
        "\<forall>j'. j < j' \<and> j' \<le> h \<longrightarrow> f j' = None"
        using Suc.IH by blast
      have "\<forall>j'. j < j' \<and> j' \<le> Suc h \<longrightarrow> f j' = None"
      proof (intro allI impI)
        fix j' assume "j < j' \<and> j' \<le> Suc h"
        then show "f j' = None" using j(4) None by (cases "j' = Suc h") auto
      qed
      with j show ?thesis by (intro exI [of _ j]) auto
    qed
  qed
qed

lemma list_all_take_run: "j \<le> length t \<Longrightarrow> list_all P (take j t) \<longleftrightarrow> j \<le> run P t"
proof (induction t arbitrary: j)
  case Nil
  then show ?case by simp
next
  case (Cons a t)
  then show ?case by (cases j) (auto simp: run_Cons)
qed

text \<open>An occurrence that starts where \<open>s\<close> starts, in terms of its length.\<close>

lemma occurrence_take:
  assumes "n \<le> length s"
  shows "occurrence rt keyword left (take n s) (drop n s) \<longleftrightarrow>
     \<not> suffix [STAR, STAR] left \<and> ci_prefix rt keyword s \<and> length keyword \<le> n \<and>
     n - length keyword \<le> min 6 (run suffix_letter (drop (length keyword) s)) \<and>
     \<not> prefix [STAR, STAR] (drop n s)"
proof (cases "length keyword \<le> n")
  case False
  with assms show ?thesis by (simp add: occurrence_def keyword_form_def)
next
  case True
  let ?L = "length keyword"
  from True assms have tk: "take ?L (take n s) = take ?L s"
    by (simp add: min_absorb1)
  have dr: "drop ?L (take n s) = take (n - ?L) (drop ?L s)"
    by (simp add: drop_take)
  from assms True have "n - ?L \<le> length (drop ?L s)" by simp
  then have letters: "list_all suffix_letter (take (n - ?L) (drop ?L s))
      \<longleftrightarrow> n - ?L \<le> run suffix_letter (drop ?L s)"
    by (rule list_all_take_run)
  from assms True have "?L \<le> length s" by simp
  with assms True show ?thesis
    unfolding occurrence_def keyword_form_def tk dr letters ci_prefix_def
    by (auto simp: min_absorb2)
qed

lemma match_keyword_Some:
  assumes "match_keyword rt keyword left s = Some n"
  shows "n \<le> length s" and "occurrence rt keyword left (take n s) (drop n s)"
    and "\<And>n'. n' \<le> length s \<Longrightarrow> occurrence rt keyword left (take n' s) (drop n' s) \<Longrightarrow> n' \<le> n"
proof -
  let ?L = "length keyword"
  let ?hi = "min 6 (run suffix_letter (drop ?L s))"
  let ?f = "\<lambda>j. if prefix [STAR, STAR] (drop (?L + j) s) then None else Some (?L + j)"
  from assms have ok: "\<not> suffix [STAR, STAR] left" "ci_prefix rt keyword s"
    and fs: "first_some ?f (greedy 0 ?hi) = Some n"
    by (auto simp: match_keyword_def split: if_splits)
  from first_some_greedy_Some [OF fs] obtain j where j: "j \<le> ?hi" "?f j = Some n"
    "\<forall>j'. j < j' \<and> j' \<le> ?hi \<longrightarrow> ?f j' = None"
    by blast
  from j(2) have n: "n = ?L + j" and st: "\<not> prefix [STAR, STAR] (drop n s)"
    by (auto split: if_splits)
  from ok(2) have "?L \<le> length s" by (simp add: ci_prefix_def)
  moreover have "run suffix_letter (drop ?L s) \<le> length (drop ?L s)" by (rule run_le_length)
  ultimately show len: "n \<le> length s" using j(1) n by auto
  show "occurrence rt keyword left (take n s) (drop n s)"
    using len ok st j(1) n by (simp add: occurrence_take)
  fix n' assume n': "n' \<le> length s" "occurrence rt keyword left (take n' s) (drop n' s)"
  then have o: "?L \<le> n'" "n' - ?L \<le> ?hi" "\<not> prefix [STAR, STAR] (drop n' s)"
    by (simp_all add: occurrence_take)
  show "n' \<le> n"
  proof (rule ccontr)
    assume "\<not> n' \<le> n"
    with n o(1,2) have "j < n' - ?L \<and> n' - ?L \<le> ?hi" by simp
    with j(3) have "?f (n' - ?L) = None" by blast
    with o(1,3) show False by simp
  qed
qed

lemma match_keyword_None:
  assumes "match_keyword rt keyword left s = None" "n' \<le> length s"
  shows "\<not> occurrence rt keyword left (take n' s) (drop n' s)"
proof
  let ?L = "length keyword"
  let ?hi = "min 6 (run suffix_letter (drop ?L s))"
  let ?f = "\<lambda>j. if prefix [STAR, STAR] (drop (?L + j) s) then None else Some (?L + j)"
  assume "occurrence rt keyword left (take n' s) (drop n' s)"
  with assms(2) have o: "\<not> suffix [STAR, STAR] left" "ci_prefix rt keyword s" "?L \<le> n'"
    "n' - ?L \<le> ?hi" "\<not> prefix [STAR, STAR] (drop n' s)"
    by (simp_all add: occurrence_take)
  with assms(1) have "first_some ?f (greedy 0 ?hi) = None"
    by (simp add: match_keyword_def)
  then have "\<forall>j \<in> set (greedy 0 ?hi). ?f j = None"
    by (simp only: first_some_None)
  moreover from o(4) have "n' - ?L \<in> set (greedy 0 ?hi)" by (simp add: set_greedy)
  ultimately have "?f (n' - ?L) = None" by blast
  with o(3,5) show False by simp
qed

text \<open>Reading a paragraph: either no position matches and the paragraph is copied, or the
  match at the first position that has one is put between stars.\<close>

lemma sub_first_cases:
  "(sub_first rt keyword left s = s \<and> (\<forall>a b. s = a @ b \<longrightarrow> match_keyword rt keyword (left @ a) b = None))
   \<or> (\<exists>a b n. s = a @ b \<and> match_keyword rt keyword (left @ a) b = Some n \<and>
        (\<forall>a' b'. s = a' @ b' \<and> length a' < length a \<longrightarrow> match_keyword rt keyword (left @ a') b' = None) \<and>
        sub_first rt keyword left s = a @ [STAR, STAR] @ take n b @ [STAR, STAR] @ drop n b)"
proof (induction s arbitrary: left)
  case Nil
  show ?case
  proof (cases "match_keyword rt keyword left []")
    case None
    then show ?thesis by simp
  next
    case (Some n)
    then show ?thesis by (intro disjI2 exI [of _ "[]"] exI [of _ n]) simp
  qed
next
  case (Cons c s)
  show ?case
  proof (cases "match_keyword rt keyword left (c # s)")
    case (Some n)
    then show ?thesis
      by (intro disjI2 exI [of _ "[]"] exI [of _ "c # s"] exI [of _ n]) simp
  next
    case None
    then have step: "sub_first rt keyword left (c # s) = c # sub_first rt keyword (left @ [c]) s"
      by simp
    from Cons.IH [of "left @ [c]"] show ?thesis
    proof
      assume A: "sub_first rt keyword (left @ [c]) s = s \<and>
        (\<forall>a b. s = a @ b \<longrightarrow> match_keyword rt keyword ((left @ [c]) @ a) b = None)"
      have "\<forall>a b. c # s = a @ b \<longrightarrow> match_keyword rt keyword (left @ a) b = None"
      proof (intro allI impI)
        fix a b assume ab: "c # s = a @ b"
        show "match_keyword rt keyword (left @ a) b = None"
        proof (cases a)
          case Nil
          with ab None show ?thesis by simp
        next
          case (Cons x a')
          with ab A show ?thesis by auto
        qed
      qed
      with A step show ?thesis by simp
    next
      assume "\<exists>a b n. s = a @ b \<and> match_keyword rt keyword ((left @ [c]) @ a) b = Some n \<and>
        (\<forall>a' b'. s = a' @ b' \<and> length a' < length a \<longrightarrow>
           match_keyword rt keyword ((left @ [c]) @ a') b' = None) \<and>
        sub_first rt keyword (left @ [c]) s = a @ [STAR, STAR] @ take n b @ [STAR, STAR] @ drop n b"
      then obtain a b n where B: "s = a @ b" "match_keyword rt keyword ((left @ [c]) @ a) b = Some n"
        "\<forall>a' b'. s = a' @ b' \<and> length a' < length a \<longrightarrow>
           match_keyword rt keyword ((left @ [c]) @ a') b' = None"
        "sub_first rt keyword (left @ [c]) s = a @ [STAR, STAR] @ take n b @ [STAR, STAR] @ drop n b"
        by blast
      have "\<forall>a' b'. c # s = a' @ b' \<and> length a' < length (c # a) \<longrightarrow>
          match_keyword rt keyword (left @ a') b' = None"
      proof (intro allI impI)
        fix a' b' assume ab: "c # s = a' @ b' \<and> length a' < length (c # a)"
        show "match_keyword rt keyword (left @ a') b' = None"
        proof (cases a')
          case Nil
          with ab None show ?thesis by simp
        next
          case (Cons x a'')
          with ab B(3) show ?thesis by auto
        qed
      qed
      with B step show ?thesis
        by (intro disjI2 exI [of _ "c # a"] exI [of _ b] exI [of _ n]) simp
    qed
  qed
qed


declare sub_first.simps [simp del]

lemma bold_first_cases:
  "(bold_first rt keyword para = para \<and>
      (\<forall>pre m post. para = pre @ m @ post \<longrightarrow> \<not> occurrence rt keyword pre m post))
   \<or> (\<exists>pre m post. para = pre @ m @ post \<and> occurrence rt keyword pre m post \<and>
        bold_first rt keyword para = pre @ [STAR, STAR] @ m @ [STAR, STAR] @ post \<and>
        (\<forall>pre' m' post'. para = pre' @ m' @ post' \<and> occurrence rt keyword pre' m' post' \<longrightarrow>
           length pre \<le> length pre' \<and> (length pre' = length pre \<longrightarrow> length m' \<le> length m)))"
  using sub_first_cases [of rt keyword "[]" para]
proof
  assume A: "sub_first rt keyword [] para = para \<and>
    (\<forall>a b. para = a @ b \<longrightarrow> match_keyword rt keyword ([] @ a) b = None)"
  have "\<forall>pre m post. para = pre @ m @ post \<longrightarrow> \<not> occurrence rt keyword pre m post"
  proof (intro allI impI)
    fix pre m post assume "para = pre @ m @ post"
    with A have "match_keyword rt keyword pre (m @ post) = None" by simp
    from match_keyword_None [OF this, of "length m"]
    show "\<not> occurrence rt keyword pre m post" by simp
  qed
  with A show ?thesis by (simp add: bold_first_def)
next
  assume "\<exists>a b n. para = a @ b \<and> match_keyword rt keyword ([] @ a) b = Some n \<and>
    (\<forall>a' b'. para = a' @ b' \<and> length a' < length a \<longrightarrow>
       match_keyword rt keyword ([] @ a') b' = None) \<and>
    sub_first rt keyword [] para = a @ [STAR, STAR] @ take n b @ [STAR, STAR] @ drop n b"
  then obtain a b n where B: "para = a @ b" "match_keyword rt keyword a b = Some n"
    "\<forall>a' b'. para = a' @ b' \<and> length a' < length a \<longrightarrow> match_keyword rt keyword a' b' = None"
    "sub_first rt keyword [] para = a @ [STAR, STAR] @ take n b @ [STAR, STAR] @ drop n b"
    by auto
  note M = match_keyword_Some [OF B(2)]
  have first: "\<forall>pre' m' post'. para = pre' @ m' @ post' \<and> occurrence rt keyword pre' m' post' \<longrightarrow>
      length a \<le> length pre' \<and> (length pre' = length a \<longrightarrow> length m' \<le> length (take n b))"
  proof (intro allI impI)
    fix pre' m' post'
    assume P: "para = pre' @ m' @ post' \<and> occurrence rt keyword pre' m' post'"
    have le: "length a \<le> length pre'"
    proof (rule ccontr)
      assume "\<not> length a \<le> length pre'"
      with P B(3) have "match_keyword rt keyword pre' (m' @ post') = None" by simp
      from match_keyword_None [OF this, of "length m'"] P show False by simp
    qed
    moreover have "length m' \<le> length (take n b)" if "length pre' = length a"
    proof -
      from that P B(1) have "pre' = a" "b = m' @ post'" by auto
      with P M(3) [of "length m'"] have "length m' \<le> n" by simp
      with M(1) show ?thesis by simp
    qed
    ultimately show "length a \<le> length pre' \<and>
        (length pre' = length a \<longrightarrow> length m' \<le> length (take n b))"
      by simp
  qed
  from B(1) have "para = a @ take n b @ drop n b" by simp
  with M(2) B(4) first show ?thesis
    unfolding bold_first_def by blast
qed

lemma greedy_head: "lo \<le> hi \<Longrightarrow> \<exists>xs. greedy lo hi = hi # xs"
  by (cases hi) (simp_all add: greedy_0 greedy_Suc)

lemma ci_prefix_Nil [simp]: "ci_prefix rt [] s"
  by (simp add: ci_prefix_def)

lemma bold_first_empty_keyword:
  assumes "\<not> prefix [STAR, STAR] (drop (min 6 (run suffix_letter para)) para)"
  shows "bold_first rt [] para =
     [STAR, STAR] @ take (min 6 (run suffix_letter para)) para @ [STAR, STAR]
       @ drop (min 6 (run suffix_letter para)) para"
proof -
  let ?hi = "min 6 (run suffix_letter para)"
  obtain xs where "greedy 0 ?hi = ?hi # xs"
    using greedy_head [of 0 ?hi] by auto
  with assms have "match_keyword rt [] [] para = Some ?hi"
    by (simp add: match_keyword_def)
  then show ?thesis by (simp add: bold_first_def sub_first.simps)
qed

lemma greedy_unfold:
  "greedy lo hi = (if lo \<le> hi then hi # (if hi = 0 then [] else greedy lo (hi - 1)) else [])"
  by (cases hi) (simp_all add: greedy_0 greedy_Suc)

lemmas bold_eval = apply_bold_keywords_def replace_first_in_paragraph_def bold_first_def
  py_split_sep_def match_keyword_def ci_prefix_def basic_runtime_def basic_ignorecase_def
  suffix_letter_def run_def
  basic_lower_char_def polish_lower_def polish_upper_def greedy_unfold sub_first.simps
  suffix_to_prefix U_simps


section \<open>Keyword emphasis: results\<close>

text \<open>
  Claim C2. With a keyword list that is not empty, the keywords are applied from the left,
  each to the text the earlier ones have made. For one keyword the text is split at every
  pair of newlines, each paragraph is treated by itself, and the paragraphs are joined by
  pairs of newlines again. In a paragraph an occurrence is the keyword, up to case as
  \<open>re.IGNORECASE\<close> of the runtime has it, followed by at most six letters of the class of
  the source (the pattern is matched without regard to case, so the letters may be
  capitals), with no pair of stars directly before or behind it. If the paragraph has no occurrence it is unchanged. Otherwise the
  occurrence that starts first, and there the longest one, is put between two pairs of
  stars, and the text before and behind it is unchanged.
\<close>

theorem apply_bold_keywords_first_occurrence:
  assumes "keywords \<noteq> []"
  shows "apply_bold_keywords rt md keywords =
       foldl (\<lambda>text keyword.
           py_join [NL, NL] (map (bold_first rt keyword) (py_split_sep [NL, NL] text)))
         md keywords
     \<and> (\<forall>keyword para.
          (bold_first rt keyword para = para \<and>
             (\<forall>pre m post. para = pre @ m @ post \<longrightarrow> \<not> occurrence rt keyword pre m post))
          \<or> (\<exists>pre m post. para = pre @ m @ post \<and> occurrence rt keyword pre m post \<and>
               bold_first rt keyword para = pre @ [STAR, STAR] @ m @ [STAR, STAR] @ post \<and>
               (\<forall>pre' m' post'.
                  para = pre' @ m' @ post' \<and> occurrence rt keyword pre' m' post' \<longrightarrow>
                  length pre \<le> length pre' \<and>
                  (length pre' = length pre \<longrightarrow> length m' \<le> length m))))"
proof (intro conjI allI)
  show "apply_bold_keywords rt md keywords =
       foldl (\<lambda>text keyword.
           py_join [NL, NL] (map (bold_first rt keyword) (py_split_sep [NL, NL] text)))
         md keywords"
    using assms by (simp add: apply_bold_keywords_def replace_first_in_paragraph_def)
next
  fix keyword para
  show "(bold_first rt keyword para = para \<and>
             (\<forall>pre m post. para = pre @ m @ post \<longrightarrow> \<not> occurrence rt keyword pre m post))
          \<or> (\<exists>pre m post. para = pre @ m @ post \<and> occurrence rt keyword pre m post \<and>
               bold_first rt keyword para = pre @ [STAR, STAR] @ m @ [STAR, STAR] @ post \<and>
               (\<forall>pre' m' post'.
                  para = pre' @ m' @ post' \<and> occurrence rt keyword pre' m' post' \<longrightarrow>
                  length pre \<le> length pre' \<and>
                  (length pre' = length pre \<longrightarrow> length m' \<le> length m)))"
    by (rule bold_first_cases)
qed

theorem apply_bold_keywords_first_occurrence_witness:
  "[U ''marketing''] \<noteq> [] \<and>
   apply_bold_keywords basic_runtime
     (U ''Marketing is marketingowe\<newline>\<newline>no marketing**, MARKETINGU'') [U ''marketing'']
   = U ''**Marketing** is marketingowe\<newline>\<newline>no marketing**, **MARKETINGU**''"
proof -
  have ne: "[U ''marketing''] \<noteq> []" by simp
  from apply_bold_keywords_first_occurrence [OF ne,
      of basic_runtime "U ''Marketing is marketingowe\<newline>\<newline>no marketing**, MARKETINGU''"]
  have "apply_bold_keywords basic_runtime
     (U ''Marketing is marketingowe\<newline>\<newline>no marketing**, MARKETINGU'') [U ''marketing'']
     = foldl (\<lambda>text keyword.
           py_join [NL, NL] (map (bold_first basic_runtime keyword) (py_split_sep [NL, NL] text)))
         (U ''Marketing is marketingowe\<newline>\<newline>no marketing**, MARKETINGU'') [U ''marketing'']"
    by (rule conjunct1)
  then show ?thesis
    by (simp add: bold_eval)
qed

text \<open>
  Claim C10. A keyword list that holds the empty string changes the text: the empty
  keyword is applied to every paragraph, and in a paragraph whose leading letters (six at
  most) are not followed by a pair of stars, these letters are put between two pairs of
  stars; where the paragraph does not start with a letter, that is an empty pair of
  markers at its start. The text \<open>hello world\<close> is changed.
\<close>

theorem empty_keyword_wraps_leading_letters:
  "apply_bold_keywords rt md [[]] =
     py_join [NL, NL] (map (bold_first rt []) (py_split_sep [NL, NL] md))
   \<and> (\<not> prefix [STAR, STAR] (drop (min 6 (run suffix_letter para)) para) \<longrightarrow>
        bold_first rt [] para =
          [STAR, STAR] @ take (min 6 (run suffix_letter para)) para @ [STAR, STAR]
            @ drop (min 6 (run suffix_letter para)) para)
   \<and> apply_bold_keywords rt (U ''hello world'') [[]] \<noteq> U ''hello world''"
proof (intro conjI impI)
  show "apply_bold_keywords rt md [[]] =
     py_join [NL, NL] (map (bold_first rt []) (py_split_sep [NL, NL] md))"
    by (simp add: apply_bold_keywords_def replace_first_in_paragraph_def)
  show "apply_bold_keywords rt (U ''hello world'') [[]] \<noteq> U ''hello world''"
    by (simp add: bold_eval)
next
  assume "\<not> prefix [STAR, STAR] (drop (min 6 (run suffix_letter para)) para)"
  then show "bold_first rt [] para =
          [STAR, STAR] @ take (min 6 (run suffix_letter para)) para @ [STAR, STAR]
            @ drop (min 6 (run suffix_letter para)) para"
    by (rule bold_first_empty_keyword)
qed

theorem empty_keyword_wraps_leading_letters_witness:
  "\<not> prefix [STAR, STAR] (drop (min 6 (run suffix_letter (U ''abcdefgh 12''))) (U ''abcdefgh 12''))
   \<and> bold_first basic_runtime [] (U ''abcdefgh 12'') = U ''**abcdef**gh 12''
   \<and> apply_bold_keywords basic_runtime (U ''hello world\<newline>\<newline>12'') [[]] = U ''**hello** world\<newline>\<newline>****12''"
proof -
  have run: "min 6 (run suffix_letter (U ''abcdefgh 12'')) = 6"
    by (simp add: bold_eval)
  have np: "\<not> prefix [STAR, STAR] (drop (min 6 (run suffix_letter (U ''abcdefgh 12''))) (U ''abcdefgh 12''))"
    unfolding run by (simp add: U_simps)
  from empty_keyword_wraps_leading_letters [of basic_runtime "U ''hello world\<newline>\<newline>12''" "U ''abcdefgh 12''"]
  have a: "apply_bold_keywords basic_runtime (U ''hello world\<newline>\<newline>12'') [[]] =
     py_join [NL, NL] (map (bold_first basic_runtime []) (py_split_sep [NL, NL] (U ''hello world\<newline>\<newline>12'')))"
    and b: "\<not> prefix [STAR, STAR] (drop (min 6 (run suffix_letter (U ''abcdefgh 12''))) (U ''abcdefgh 12'')) \<longrightarrow>
        bold_first basic_runtime [] (U ''abcdefgh 12'') =
          [STAR, STAR] @ take (min 6 (run suffix_letter (U ''abcdefgh 12''))) (U ''abcdefgh 12'') @ [STAR, STAR]
            @ drop (min 6 (run suffix_letter (U ''abcdefgh 12''))) (U ''abcdefgh 12'')"
    by blast+
  from b np have "bold_first basic_runtime [] (U ''abcdefgh 12'') =
          [STAR, STAR] @ take (min 6 (run suffix_letter (U ''abcdefgh 12''))) (U ''abcdefgh 12'') @ [STAR, STAR]
            @ drop (min 6 (run suffix_letter (U ''abcdefgh 12''))) (U ''abcdefgh 12'')"
    by blast
  then have c: "bold_first basic_runtime [] (U ''abcdefgh 12'') = U ''**abcdef**gh 12''"
    unfolding run by (simp add: U_simps)
  from a have d: "apply_bold_keywords basic_runtime (U ''hello world\<newline>\<newline>12'') [[]] = U ''**hello** world\<newline>\<newline>****12''"
    by (simp add: bold_eval)
  from np c d show ?thesis by blast
qed

section \<open>Fetching, composing, merging: facts\<close>

lemma download_image_fetched:
  "download_image e url d f fs =
     (case fetched e url of
        None \<Rightarrow> (None, fs)
      | Some b \<Rightarrow> (Some (path_join d f), fs(path_join d f \<mapsto> Raw b)))"
  by (auto simp: download_image_def download_try_def fetched_def raise_for_status_def Let_def
      split: http_result.splits)

lemma infographic_loop_Cons:
  "infographic_loop e d i (url # urls) fs m =
     (case fetched e url of
        None \<Rightarrow> infographic_loop e d (Suc i) urls fs m
      | Some b \<Rightarrow>
          if valid_image e b
          then infographic_loop e d (Suc i) urls
                 ((fs(path_join d (U ''infographic_'' @ str_nat i @ U ''.png'') \<mapsto> Raw b))
                    (path_join d (U ''infographic_'' @ str_nat i @ U ''.pdf'') \<mapsto> Pdf [FullPage b]))
                 (m @ [FullPage b])
          else Inl ImageError)"
  by (simp add: download_image_fetched create_full_page_image_pdf_def merger_append_def
      split: option.splits)

declare infographic_loop.simps(2) [simp del]

lemma infographic_loop_Inr:
  "infographic_loop e d i urls fs m = Inr (fs', m') \<Longrightarrow>
   m' = m @ concat (map (\<lambda>url. full_pages (fetched e url)) urls)
   \<and> (\<forall>url \<in> set urls. image_ok e (fetched e url))"
proof (induction urls arbitrary: i fs m)
  case Nil
  then show ?case by simp
next
  case (Cons url urls)
  show ?case
  proof (cases "fetched e url")
    case None
    with Cons.prems have "infographic_loop e d (Suc i) urls fs m = Inr (fs', m')"
      by (simp add: infographic_loop_Cons)
    from Cons.IH [OF this] None show ?thesis
      by (simp add: full_pages_def image_ok_def)
  next
    case (Some b)
    with Cons.prems have v: "valid_image e b"
      by (simp add: infographic_loop_Cons split: if_splits)
    with Cons.prems Some obtain fs2 where
      "infographic_loop e d (Suc i) urls fs2 (m @ [FullPage b]) = Inr (fs', m')"
      by (simp add: infographic_loop_Cons)
    from Cons.IH [OF this] Some v show ?thesis
      by (simp add: full_pages_def image_ok_def)
  qed
qed

lemma infographic_loop_ok:
  "\<forall>url \<in> set urls. image_ok e (fetched e url) \<Longrightarrow>
   \<exists>fs'. infographic_loop e d i urls fs m
     = Inr (fs', m @ concat (map (\<lambda>url. full_pages (fetched e url)) urls))"
proof (induction urls arbitrary: i fs m)
  case Nil
  then show ?case by simp
next
  case (Cons url urls)
  then have rest: "\<forall>u \<in> set urls. image_ok e (fetched e u)" by simp
  show ?case
  proof (cases "fetched e url")
    case None
    with Cons.IH [OF rest, of "Suc i" fs m] show ?thesis
      by (simp add: infographic_loop_Cons full_pages_def)
  next
    case (Some b)
    from Cons.prems Some have v: "valid_image e b" by (simp add: image_ok_def)
    obtain fs' where "infographic_loop e d (Suc i) urls
        ((fs(path_join d (U ''infographic_'' @ str_nat i @ U ''.png'') \<mapsto> Raw b))
           (path_join d (U ''infographic_'' @ str_nat i @ U ''.pdf'') \<mapsto> Pdf [FullPage b]))
        (m @ [FullPage b])
      = Inr (fs', (m @ [FullPage b]) @ concat (map (\<lambda>url. full_pages (fetched e url)) urls))"
      using Cons.IH [OF rest] by blast
    with Some v show ?thesis
      by (simp add: infographic_loop_Cons full_pages_def)
  qed
qed

lemma cover_step_Inr:
  assumes "cover_step e request d fs m = Inr (fs', m')"
  shows "m' = m @ full_pages (fetched_opt e (PdfRequest.cover_url request))"
    and "image_ok e (fetched_opt e (PdfRequest.cover_url request))"
    and "p \<noteq> path_join d (U ''cover.png'') \<Longrightarrow> p \<noteq> path_join d (U ''cover.pdf'')
      \<Longrightarrow> fs' p = fs p"
  using assms
  by (auto simp: cover_step_def fetched_opt_def full_pages_def image_ok_def
      download_image_fetched create_full_page_image_pdf_def merger_append_def
      split: option.splits if_splits)

lemma cover_step_ok:
  assumes "image_ok e (fetched_opt e (PdfRequest.cover_url request))"
  shows "\<exists>fs'. cover_step e request d fs m
     = Inr (fs', m @ full_pages (fetched_opt e (PdfRequest.cover_url request)))"
  using assms
  by (auto simp: cover_step_def fetched_opt_def full_pages_def image_ok_def
      download_image_fetched create_full_page_image_pdf_def merger_append_def
      split: option.splits if_splits)

lemma path_join_inject:
  assumes "\<not> prefix [47] a" "\<not> prefix [47] b"
  shows "path_join d a = path_join d b \<longleftrightarrow> a = b"
  using assms by (auto simp: path_join_def)

lemma content_pdf_not_cover:
  "path_join d (U ''content.pdf'') \<noteq> path_join d (U ''cover.png'')"
  "path_join d (U ''content.pdf'') \<noteq> path_join d (U ''cover.pdf'')"
  by (simp_all add: path_join_inject U_simps)

lemma render_content_file:
  assumes "render_content e request d fs = Inr (pages, fs3)"
  shows "fs3 (path_join d (U ''content.pdf'')) = Some (Pdf pages)"
  using assms
  by (auto simp: render_content_def Let_def split_def split: sum.splits option.splits stored.splits)

text \<open>The document, when it is made, and when it is made.\<close>

lemma generate_pdf_Inr:
  assumes "generate_pdf_from_content e request d fs = Inr (doc, fs')"
  shows "\<exists>pages fs3. render_content e request d fs = Inr (pages, fs3)
     \<and> doc = full_pages (fetched_opt e (PdfRequest.cover_url request)) @ pages
         @ concat (map (\<lambda>url. full_pages (fetched e url))
             (url_list (PdfRequest.infographic_urls request)))"
proof -
  from assms obtain pages fs3 where r: "render_content e request d fs = Inr (pages, fs3)"
    by (auto simp: generate_pdf_from_content_def split: sum.splits)
  with assms obtain fs4 m1 where c: "cover_step e request d fs3 [] = Inr (fs4, m1)"
    by (auto simp: generate_pdf_from_content_def split: sum.splits)
  note C = cover_step_Inr [OF c]
  have "fs4 (path_join d (U ''content.pdf'')) = fs3 (path_join d (U ''content.pdf''))"
    by (rule C(3)) (rule content_pdf_not_cover)+
  with render_content_file [OF r]
  have a: "merger_append fs4 m1 (path_join d (U ''content.pdf'')) = Inr (m1 @ pages)"
    by (simp add: merger_append_def)
  with assms r c obtain fs5 m3 where
    l: "infographic_loop e d 0 (url_list (PdfRequest.infographic_urls request)) fs4 (m1 @ pages)
        = Inr (fs5, m3)" and doc: "doc = m3"
    by (auto simp: generate_pdf_from_content_def url_list_def Let_def split: sum.splits)
  from infographic_loop_Inr [OF l] C(1) doc r show ?thesis by simp
qed

lemma generate_pdf_ok:
  assumes "render_content e request d fs = Inr (pages, fs3)"
    and "image_ok e (fetched_opt e (PdfRequest.cover_url request))"
    and "\<forall>url \<in> set (url_list (PdfRequest.infographic_urls request)). image_ok e (fetched e url)"
  shows "\<exists>fs'. generate_pdf_from_content e request d fs =
     Inr (full_pages (fetched_opt e (PdfRequest.cover_url request)) @ pages
         @ concat (map (\<lambda>url. full_pages (fetched e url))
             (url_list (PdfRequest.infographic_urls request))), fs')"
proof -
  from cover_step_ok [OF assms(2), of d fs3 "[]"] obtain fs4 where
    c: "cover_step e request d fs3 [] =
      Inr (fs4, full_pages (fetched_opt e (PdfRequest.cover_url request)))"
    by auto
  let ?m1 = "full_pages (fetched_opt e (PdfRequest.cover_url request))"
  have "fs4 (path_join d (U ''content.pdf'')) = fs3 (path_join d (U ''content.pdf''))"
    by (rule cover_step_Inr(3) [OF c]) (rule content_pdf_not_cover)+
  with render_content_file [OF assms(1)]
  have a: "merger_append fs4 ?m1 (path_join d (U ''content.pdf'')) = Inr (?m1 @ pages)"
    by (simp add: merger_append_def)
  from infographic_loop_ok [OF assms(3), of d 0 fs4 "?m1 @ pages"] obtain fs5 where
    l: "infographic_loop e d 0 (url_list (PdfRequest.infographic_urls request)) fs4 (?m1 @ pages)
      = Inr (fs5, (?m1 @ pages) @ concat (map (\<lambda>url. full_pages (fetched e url))
             (url_list (PdfRequest.infographic_urls request))))"
    by auto
  from assms(1) c a l show ?thesis
    by (simp add: generate_pdf_from_content_def url_list_def Let_def)
qed

lemma logo_step_fetched:
  "logo_step e request d fs =
     (case fetched_opt e (PdfRequest.logo_url request) of
        None \<Rightarrow> ([], fs)
      | Some b \<Rightarrow> (logo_block (path_join d (U ''logo.png'')),
                   fs(path_join d (U ''logo.png'') \<mapsto> Raw b)))"
  by (simp add: logo_step_def fetched_opt_def download_image_fetched split: option.splits)

lemma render_content_eq:
  "render_content e request d fs =
     (case layout e
             ((snd (logo_step e request d fs))
                (path_join d (U ''content.html'') \<mapsto> Text (request_html e request d)))
             (request_html e request d) of
        Inl err \<Rightarrow> Inl err
      | Inr n \<Rightarrow>
          Inr (map (\<lambda>i. Flow i (request_html e request d)) [0..<n],
               ((snd (logo_step e request d fs))
                  (path_join d (U ''content.html'') \<mapsto> Text (request_html e request d)))
                 (path_join d (U ''content.pdf'') \<mapsto>
                    Pdf (map (\<lambda>i. Flow i (request_html e request d)) [0..<n]))))"
proof -
  have html: "full_html_text (PdfRequest.title request) (fotz_css e)
      (case PdfRequest.toc_items request of
         None \<Rightarrow> []
       | Some items \<Rightarrow> if items = [] then [] else generate_toc_html items)
      (markdown e (process_content (runtime e) (content request) (PdfRequest.keywords_to_bold request)))
      (fst (logo_step e request d fs)) = request_html e request d"
    by (simp add: full_html_text_def request_html_def logo_step_fetched logo_block_def
        split: option.splits)
  show ?thesis
    unfolding render_content_def Let_def split_def html
    by (simp add: write_pdf_def split: sum.splits)
qed


lemma render_content_one_page:
  assumes "layout e = (\<lambda>fs html. Inr 1)"
  shows "\<exists>fs3. render_content e request d fs = Inr ([Flow 0 (request_html e request d)], fs3)"
  by (simp add: render_content_eq assms)

lemma filter_full_pages [simp]: "filter is_full_page (full_pages img) = full_pages img"
  by (simp add: full_pages_def is_full_page_def split: option.splits)

lemma filter_concat_full_pages [simp]:
  "filter is_full_page (concat (map (\<lambda>url. full_pages (f url)) urls))
     = concat (map (\<lambda>url. full_pages (f url)) urls)"
  by (induction urls) simp_all

lemma filter_flow [simp]: "filter is_full_page (map (\<lambda>i. Flow i html) ns) = []"
  by (induction ns) (simp_all add: is_full_page_def)

section \<open>The package: facts\<close>









lemmas world_simps = env_ok_def env_down_def env_304_def request_0_def zip_request_0_def
  pdf_request_of_def fetched_def fetched_opt_def full_pages_def image_ok_def url_list_def

section \<open>The document: results\<close>

text \<open>
  Claim C3. A fetch succeeds, with the body \<open>fetched\<close> gives, exactly when \<open>download_image\<close>
  returns a path. When \<open>generate_pdf_from_content\<close> returns a document, the content document was
  rendered and the final document is, in this order: the composed page of the cover, if
  a cover URL was given (and not empty) and its fetch succeeded; all pages of the content
  document; and the composed page of every infographic URL whose fetch succeeded, in the
  order of the request. And it does return that document whenever the content document
  is rendered and every fetched cover and infographic is an image the composer accepts.
\<close>

theorem final_document_order:
  "fst (download_image e url temp_dir filename fs)
     = map_option (\<lambda>b. path_join temp_dir filename) (fetched e url)
   \<and> (generate_pdf_from_content e request temp_dir fs = Inr (doc, fs') \<longrightarrow>
      (\<exists>pages fs3. render_content e request temp_dir fs = Inr (pages, fs3) \<and>
         doc = full_pages (fetched_opt e (PdfRequest.cover_url request)) @ pages
               @ concat (map (\<lambda>url. full_pages (fetched e url))
                   (url_list (PdfRequest.infographic_urls request)))))
   \<and> (render_content e request temp_dir fs = Inr (pages, fs3) \<and>
        image_ok e (fetched_opt e (PdfRequest.cover_url request)) \<and>
        (\<forall>url \<in> set (url_list (PdfRequest.infographic_urls request)).
           image_ok e (fetched e url)) \<longrightarrow>
        (\<exists>fs'. generate_pdf_from_content e request temp_dir fs =
           Inr (full_pages (fetched_opt e (PdfRequest.cover_url request)) @ pages
                @ concat (map (\<lambda>url. full_pages (fetched e url))
                    (url_list (PdfRequest.infographic_urls request))), fs')))"
proof -
  have "fst (download_image e url temp_dir filename fs)
     = map_option (\<lambda>b. path_join temp_dir filename) (fetched e url)"
    by (simp add: download_image_fetched split: option.splits)
  with generate_pdf_Inr [of e request temp_dir fs doc fs']
    generate_pdf_ok [of e request temp_dir fs pages fs3]
  show ?thesis by blast
qed

theorem final_document_order_witness:
  "\<exists>pages fs3 fs'.
     render_content env_ok request_0 (U ''/tmp/d'') Map.empty = Inr (pages, fs3) \<and>
     generate_pdf_from_content env_ok request_0 (U ''/tmp/d'') Map.empty
       = Inr ([FullPage (U ''c'')] @ pages @ [FullPage (U ''i1''), FullPage (U ''i2'')], fs')"
proof -
  obtain fs3 where r: "render_content env_ok request_0 (U ''/tmp/d'') Map.empty
      = Inr ([Flow 0 (request_html env_ok request_0 (U ''/tmp/d''))], fs3)"
    using render_content_one_page [of env_ok request_0 "U ''/tmp/d''" Map.empty]
    by (auto simp: env_ok_def)
  have ok: "image_ok env_ok (fetched_opt env_ok (PdfRequest.cover_url request_0))"
    "\<forall>url \<in> set (url_list (PdfRequest.infographic_urls request_0)).
       image_ok env_ok (fetched env_ok url)"
    by (simp_all add: world_simps)
  from final_document_order [of env_ok _ "U ''/tmp/d''" _ Map.empty request_0 _ _
      "[Flow 0 (request_html env_ok request_0 (U ''/tmp/d''))]" fs3] r ok
  obtain fs' where "generate_pdf_from_content env_ok request_0 (U ''/tmp/d'') Map.empty =
      Inr (full_pages (fetched_opt env_ok (PdfRequest.cover_url request_0))
           @ [Flow 0 (request_html env_ok request_0 (U ''/tmp/d''))]
           @ concat (map (\<lambda>url. full_pages (fetched env_ok url))
               (url_list (PdfRequest.infographic_urls request_0))), fs')"
    by blast
  then have "generate_pdf_from_content env_ok request_0 (U ''/tmp/d'') Map.empty
      = Inr ([FullPage (U ''c'')] @ [Flow 0 (request_html env_ok request_0 (U ''/tmp/d''))]
             @ [FullPage (U ''i1''), FullPage (U ''i2'')], fs')"
    by (simp add: world_simps U_simps)
  with r show ?thesis by blast
qed



text \<open>
  Claim C6, as the code has it. \<open>download_image\<close> gives no path, and leaves the files as
  they are, when the request fails, times out or is answered with a status from 400 to
  599; it gives the path of the written file for every other status; it raises nothing in
  any case (its result has no error). A request whose cover
  cannot be fetched still gets its document, without a cover page, whenever the content
  document is rendered and the fetched infographics are images: the content pages and
  the infographic pages (the content pages only, if the request names no infographic).
\<close>

theorem download_image_absent:
  "(http_get e url = RequestFailed \<or> http_get e url = TimedOut \<or>
      (\<exists>status body. http_get e url = Response status body \<and> 400 \<le> status \<and> status < 600)
    \<longrightarrow> download_image e url temp_dir filename fs = (None, fs))
   \<and> (http_get e url = Response status body \<and> \<not> (400 \<le> status \<and> status < 600)
      \<longrightarrow> fst (download_image e url temp_dir filename fs) = Some (path_join temp_dir filename))
   \<and> (PdfRequest.cover_url request = Some url \<and> fetched e url = None \<and>
        render_content e request temp_dir fs = Inr (pages, fs3) \<and>
        (\<forall>u \<in> set (url_list (PdfRequest.infographic_urls request)). image_ok e (fetched e u))
      \<longrightarrow> (\<exists>fs'. generate_pdf_from_content e request temp_dir fs =
             Inr (pages @ concat (map (\<lambda>u. full_pages (fetched e u))
                            (url_list (PdfRequest.infographic_urls request))), fs')))"
proof (intro conjI impI)
  assume "http_get e url = RequestFailed \<or> http_get e url = TimedOut \<or>
      (\<exists>status body. http_get e url = Response status body \<and> 400 \<le> status \<and> status < 600)"
  then have "fetched e url = None"
    by (auto simp: fetched_def)
  then show "download_image e url temp_dir filename fs = (None, fs)"
    by (simp add: download_image_fetched)
next
  assume "http_get e url = Response status body \<and> \<not> (400 \<le> status \<and> status < 600)"
  then have "fetched e url = Some body"
    by (auto simp: fetched_def)
  then show "fst (download_image e url temp_dir filename fs) = Some (path_join temp_dir filename)"
    by (simp add: download_image_fetched)
next
  assume a: "PdfRequest.cover_url request = Some url \<and> fetched e url = None \<and>
        render_content e request temp_dir fs = Inr (pages, fs3) \<and>
        (\<forall>u \<in> set (url_list (PdfRequest.infographic_urls request)). image_ok e (fetched e u))"
  then have none: "fetched_opt e (PdfRequest.cover_url request) = None"
    by (simp add: fetched_opt_def)
  then have "image_ok e (fetched_opt e (PdfRequest.cover_url request))"
    by (simp add: image_ok_def)
  with a generate_pdf_ok [of e request temp_dir fs pages fs3] none
  show "\<exists>fs'. generate_pdf_from_content e request temp_dir fs =
             Inr (pages @ concat (map (\<lambda>u. full_pages (fetched e u))
                            (url_list (PdfRequest.infographic_urls request))), fs')"
    by (simp add: full_pages_def)
qed

theorem download_image_absent_witness:
  "http_get env_down (U ''c'') = RequestFailed
   \<and> download_image env_down (U ''c'') (U ''/tmp/d'') (U ''cover.png'') Map.empty
       = (None, Map.empty)
   \<and> (\<exists>pages fs3 fs'.
        render_content env_down request_0 (U ''/tmp/d'') Map.empty = Inr (pages, fs3) \<and>
        generate_pdf_from_content env_down request_0 (U ''/tmp/d'') Map.empty
          = Inr (pages @ [FullPage (U ''i1''), FullPage (U ''i2'')], fs'))"
proof -
  have h: "http_get env_down (U ''c'') = RequestFailed"
    by (simp add: env_down_def)
  obtain fs3 where r: "render_content env_down request_0 (U ''/tmp/d'') Map.empty
      = Inr ([Flow 0 (request_html env_down request_0 (U ''/tmp/d''))], fs3)"
    using render_content_one_page [of env_down request_0 "U ''/tmp/d''" Map.empty]
    by (auto simp: env_down_def)
  have c: "PdfRequest.cover_url request_0 = Some (U ''c'')"
    and f: "fetched env_down (U ''c'') = None"
    and ok: "\<forall>u \<in> set (url_list (PdfRequest.infographic_urls request_0)).
       image_ok env_down (fetched env_down u)"
    by (simp_all add: world_simps)
  note D = download_image_absent [of env_down "U ''c''" "U ''/tmp/d''" "U ''cover.png''"
      Map.empty _ _ request_0 "[Flow 0 (request_html env_down request_0 (U ''/tmp/d''))]" fs3]
  from D h have d: "download_image env_down (U ''c'') (U ''/tmp/d'') (U ''cover.png'') Map.empty
       = (None, Map.empty)"
    by blast
  from D c f r ok obtain fs' where
    "generate_pdf_from_content env_down request_0 (U ''/tmp/d'') Map.empty =
       Inr ([Flow 0 (request_html env_down request_0 (U ''/tmp/d''))]
            @ concat (map (\<lambda>u. full_pages (fetched env_down u))
                (url_list (PdfRequest.infographic_urls request_0))), fs')"
    by blast
  then have "generate_pdf_from_content env_down request_0 (U ''/tmp/d'') Map.empty =
       Inr ([Flow 0 (request_html env_down request_0 (U ''/tmp/d''))]
            @ [FullPage (U ''i1''), FullPage (U ''i2'')], fs')"
    by (simp add: world_simps U_simps)
  with h d r show ?thesis by blast
qed

text \<open>
  Claim C6 as stated fails for a status that is neither 2xx nor 4xx nor 5xx: the answer
  304 is not raised by \<open>raise_for_status\<close>, so its (empty) body is written and the path is
  returned; the composer then refuses the file, and the request ends with an error.
\<close>

theorem download_image_status_304_counterexample:
  "\<not> (200 \<le> (304::nat) \<and> (304::nat) < 300)
   \<and> http_get env_304 (U ''c'') = Response 304 []
   \<and> fst (download_image env_304 (U ''c'') (U ''/tmp/d'') (U ''cover.png'') Map.empty)
       = Some (U ''/tmp/d/cover.png'')
   \<and> generate_pdf_from_content env_304 request_0 (U ''/tmp/d'') Map.empty = Inl ImageError"
proof -
  have pj: "path_join (U ''/tmp/d'') (U ''cover.png'') = U ''/tmp/d/cover.png''"
    by (simp add: path_join_def U_simps suffix_to_prefix)
  have d: "fst (download_image env_304 (U ''c'') (U ''/tmp/d'') (U ''cover.png'') Map.empty)
       = Some (U ''/tmp/d/cover.png'')"
    by (simp add: download_image_fetched fetched_def env_304_def pj)
  obtain fs3 where r: "render_content env_304 request_0 (U ''/tmp/d'') Map.empty
      = Inr ([Flow 0 (request_html env_304 request_0 (U ''/tmp/d''))], fs3)"
    using render_content_one_page [of env_304 request_0 "U ''/tmp/d''" Map.empty]
    by (auto simp: env_304_def)
  have "cover_step env_304 request_0 (U ''/tmp/d'') fs3 [] = Inl ImageError"
    by (simp add: cover_step_def download_image_fetched create_full_page_image_pdf_def
        world_simps U_simps)
  with r have "generate_pdf_from_content env_304 request_0 (U ''/tmp/d'') Map.empty
      = Inl ImageError"
    by (simp add: generate_pdf_from_content_def)
  with d show ?thesis by (simp add: env_304_def)
qed

section \<open>The package: results\<close>



section \<open>Floating point: facts\<close>

lemma pow2_powi: "pow2 e = 2 powi e"
  by (simp add: pow2_def power_int_def inverse_eq_divide power_one_over)

lemma pow2_pos: "0 < pow2 e"
  by (simp add: pow2_def)

lemma pow2_nonzero [simp]: "pow2 e \<noteq> 0"
  using pow2_pos [of e] by simp

lemma pow2_add: "pow2 (a + b) = pow2 a * pow2 b"
  by (simp add: pow2_powi power_int_add)

lemma pow2_mono: "a \<le> b \<Longrightarrow> pow2 a \<le> pow2 b"
  by (simp add: pow2_powi power_int_increasing)

lemma pow2_less: "a < b \<Longrightarrow> pow2 a < pow2 b"
  by (simp add: pow2_powi power_int_strict_increasing)

lemma expo_bounds:
  assumes "x \<noteq> 0"
  shows "pow2 (expo x) \<le> \<bar>x\<bar>" and "\<bar>x\<bar> < pow2 (expo x + 1)"
proof -
  have "pow2 (expo x) \<le> \<bar>x\<bar> \<and> \<bar>x\<bar> < pow2 (expo x + 1)"
  proof (cases "1 \<le> \<bar>x\<bar>")
    case True
    define n where "n = \<lfloor>\<bar>x\<bar>\<rfloor>"
    from True have n: "1 \<le> n" by (simp add: n_def le_floor_iff)
    then have "0 < n" by simp
    from bitlen_bounds [OF this]
    have b: "2 ^ nat (bitlen n - 1) \<le> n" "n < 2 ^ nat (bitlen n)" by simp_all
    from n have bl: "1 \<le> bitlen n"
      by (simp add: bitlen_ge_iff_power)
    have e: "expo x = bitlen n - 1"
      using True by (simp add: expo_def n_def)
    have "(of_int n :: rat) \<le> \<bar>x\<bar>" by (simp add: n_def)
    moreover have "(2 :: rat) ^ nat (bitlen n - 1) \<le> of_int n"
      using b(1) by (metis of_int_le_iff of_int_numeral of_int_power)
    ultimately have "(2 :: rat) ^ nat (bitlen n - 1) \<le> \<bar>x\<bar>"
      by (rule order_trans [rotated])
    moreover have "pow2 (expo x) = 2 ^ nat (bitlen n - 1)"
      using bl by (simp add: e pow2_def)
    ultimately have lo: "pow2 (expo x) \<le> \<bar>x\<bar>" by simp
    have "\<bar>x\<bar> < of_int n + 1" unfolding n_def by linarith
    moreover from b(2) have "n + 1 \<le> 2 ^ nat (bitlen n)" by simp
    then have "(of_int (n + 1) :: rat) \<le> of_int (2 ^ nat (bitlen n))"
      by (simp only: of_int_le_iff)
    then have "(of_int n + 1 :: rat) \<le> 2 ^ nat (bitlen n)" by simp
    ultimately have "\<bar>x\<bar> < 2 ^ nat (bitlen n)" by simp
    with bl have hi: "\<bar>x\<bar> < pow2 (expo x + 1)"
      by (simp add: e pow2_def)
    from lo hi show ?thesis by simp
  next
    case False
    define m where "m = \<lceil>1 / \<bar>x\<bar>\<rceil>"
    define k where "k = bitlen (m - 1)"
    from assms have xp: "0 < \<bar>x\<bar>" by simp
    with False have inv: "1 < 1 / \<bar>x\<bar>" by (simp add: field_simps)
    then have "1 < m" by (simp add: m_def less_ceiling_iff)
    then have m1: "0 < m - 1" by simp
    from bitlen_bounds [OF this]
    have b: "2 ^ nat (k - 1) \<le> m - 1" "m - 1 < 2 ^ nat k" by (simp_all add: k_def)
    from m1 have k1: "1 \<le> k"
      unfolding k_def by (simp add: bitlen_ge_iff_power)
    have e: "expo x = - k"
      using False by (simp add: expo_def m_def k_def)
    have "1 / \<bar>x\<bar> \<le> of_int m" by (simp add: m_def)
    moreover from b(2) have "m \<le> 2 ^ nat k" by simp
    then have "(of_int m :: rat) \<le> of_int (2 ^ nat k)" by (simp only: of_int_le_iff)
    then have "(of_int m :: rat) \<le> 2 ^ nat k" by simp
    ultimately have "1 / \<bar>x\<bar> \<le> 2 ^ nat k" by (rule order_trans)
    with xp have "1 / 2 ^ nat k \<le> \<bar>x\<bar>"
      by (simp add: field_simps)
    with k1 have lo: "pow2 (expo x) \<le> \<bar>x\<bar>"
      by (simp add: e pow2_def)
    have "of_int (m - 1) < 1 / \<bar>x\<bar>"
      unfolding m_def by (metis ceiling_correct diff_add_cancel of_int_1 of_int_diff
          add_diff_cancel_right')
    moreover from b(1) have "(of_int (2 ^ nat (k - 1)) :: rat) \<le> of_int (m - 1)"
      by (simp only: of_int_le_iff)
    then have "(2 :: rat) ^ nat (k - 1) \<le> of_int (m - 1)" by simp
    ultimately have "2 ^ nat (k - 1) < 1 / \<bar>x\<bar>" by (rule order_le_less_trans [rotated])
    with xp have lt: "\<bar>x\<bar> < 1 / 2 ^ nat (k - 1)"
      by (simp add: field_simps)
    have "pow2 (1 - k) = 1 / 2 ^ nat (k - 1)"
      using k1 by (cases "k = 1") (simp_all add: pow2_def)
    with lt have hi: "\<bar>x\<bar> < pow2 (expo x + 1)"
      by (simp add: e)
    from lo hi show ?thesis by simp
  qed
  then show "pow2 (expo x) \<le> \<bar>x\<bar>" and "\<bar>x\<bar> < pow2 (expo x + 1)" by simp_all
qed

lemma expo_eqI:
  assumes "pow2 e \<le> \<bar>x\<bar>" "\<bar>x\<bar> < pow2 (e + 1)"
  shows "expo x = e"
proof -
  from assms(1) pow2_pos [of e] have x: "x \<noteq> 0"
    by (cases "x = 0") simp_all
  note b = expo_bounds [OF x]
  have "\<not> expo x < e"
  proof
    assume "expo x < e"
    then have "pow2 (expo x + 1) \<le> pow2 e" by (intro pow2_mono) simp
    with b(2) assms(1) show False by simp
  qed
  moreover have "\<not> e < expo x"
  proof
    assume "e < expo x"
    then have "pow2 (e + 1) \<le> pow2 (expo x)" by (intro pow2_mono) simp
    with b(1) assms(2) show False by simp
  qed
  ultimately show ?thesis by simp
qed

lemma rne_error: "\<bar>of_int (rne y) - y\<bar> \<le> 1 / 2"
proof -
  define f where "f = \<lfloor>y\<rfloor>"
  define r where "r = y - of_int f"
  have r: "0 \<le> r" "r < 1"
    unfolding r_def f_def by linarith+
  have y: "y = of_int f + r" by (simp add: r_def)
  have "rne y = (if r < 1 / 2 then f else if 1 / 2 < r then f + 1
                 else if even f then f else f + 1)"
    by (simp add: rne_def Let_def f_def r_def)
  then consider "rne y = f" "r \<le> 1 / 2" | "rne y = f + 1" "1 / 2 \<le> r"
    by (cases "r < 1 / 2"; cases "1 / 2 < r"; cases "even f") auto
  then show ?thesis
  proof cases
    case 1
    with r show ?thesis by (simp add: y)
  next
    case 2
    with r show ?thesis by (simp add: y)
  qed
qed

lemma rne_eqI:
  assumes "\<bar>y - of_int n\<bar> < 1 / 2"
  shows "rne y = n"
proof -
  have "\<bar>(of_int (rne y) :: rat) - of_int n\<bar> \<le> \<bar>of_int (rne y) - y\<bar> + \<bar>y - of_int n\<bar>"
    by simp
  also have "\<dots> < 1 / 2 + 1 / 2"
    using rne_error [of y] assms by (intro add_le_less_mono)
  finally have "\<bar>(of_int (rne y - n) :: rat)\<bar> < 1" by simp
  then have "\<bar>rne y - n\<bar> < 1"
    by (metis of_int_abs of_int_less_1_iff)
  then show ?thesis by simp
qed

lemma round53_error: "\<bar>round53 x - x\<bar> \<le> \<bar>x\<bar> / 2 ^ 53"
proof (cases "x = 0")
  case True
  then show ?thesis by (simp add: round53_def)
next
  case False
  define s where "s = pow2 (expo x - 52)"
  have sp: "0 < s" unfolding s_def by (rule pow2_pos)
  have "pow2 (expo x) = pow2 (expo x - 52) * pow2 52"
    using pow2_add [of "expo x - 52" 52] by simp
  then have s: "pow2 (expo x) = s * 2 ^ 52" by (simp add: s_def pow2_def)
  have "round53 x - x = s * (of_int (rne (x / s)) - x / s)"
    using False sp by (simp add: round53_def s_def field_simps)
  then have "\<bar>round53 x - x\<bar> = s * \<bar>of_int (rne (x / s)) - x / s\<bar>"
    using sp by (simp add: abs_mult)
  also have "\<dots> \<le> s * (1 / 2)"
    using sp rne_error [of "x / s"] by (intro mult_left_mono) simp_all
  also have "\<dots> = pow2 (expo x) / 2 ^ 53"
    by (simp add: s)
  also have "\<dots> \<le> \<bar>x\<bar> / 2 ^ 53"
    using expo_bounds(1) [OF False] by (simp add: divide_right_mono)
  finally show ?thesis .
qed

lemma round53_eval:
  assumes "pow2 e \<le> \<bar>x\<bar>" "\<bar>x\<bar> < pow2 (e + 1)"
    and "\<bar>x / pow2 (e - 52) - of_int n\<bar> < 1 / 2"
  shows "round53 x = of_int n * pow2 (e - 52)"
proof -
  from assms(1) pow2_pos [of e] have "x \<noteq> 0"
    by (cases "x = 0") simp_all
  with expo_eqI [OF assms(1,2)] rne_eqI [OF assms(3)] show ?thesis
    by (simp add: round53_def)
qed

lemma round53_zero [simp]: "round53 0 = 0"
  by (simp add: round53_def)

lemma round53_ge:
  assumes "0 < x"
  shows "x * (1 - 1 / 2 ^ 53) \<le> round53 x"
proof -
  from assms have "\<bar>x\<bar> = x" by simp
  with round53_error [of x] have "\<bar>round53 x - x\<bar> \<le> x / 2 ^ 53" by (simp only:)
  then have "x - x / 2 ^ 53 \<le> round53 x" by linarith
  moreover have "x * (1 - 1 / 2 ^ 53) = x - x / 2 ^ 53"
    by (simp add: right_diff_distrib)
  ultimately show ?thesis by (simp only:)
qed

lemma round53_pos:
  assumes "0 < x"
  shows "0 < round53 x"
proof -
  have "(0::rat) < 1 - 1 / 2 ^ 53" by simp
  with assms have "0 < x * (1 - 1 / 2 ^ 53)" by (rule mult_pos_pos)
  with round53_ge [OF assms] show ?thesis by simp
qed

lemma round53_of_int:
  assumes "\<bar>n\<bar> < 2 ^ 53"
  shows "round53 (of_int n) = of_int n"
proof (cases "n = 0")
  case True
  then show ?thesis by simp
next
  case False
  define x :: rat where "x = of_int n"
  define e where "e = expo x"
  from False have x0: "x \<noteq> 0" by (simp add: x_def)
  note b = expo_bounds [OF x0]
  have "\<bar>x\<bar> = of_int \<bar>n\<bar>" by (simp add: x_def)
  also from assms have "(of_int \<bar>n\<bar> :: rat) < of_int (2 ^ 53)"
    by (simp only: of_int_less_iff)
  finally have "\<bar>x\<bar> < pow2 53" by (simp add: pow2_def)
  have "e \<le> 52"
  proof (rule ccontr)
    assume "\<not> e \<le> 52"
    then have "pow2 53 \<le> pow2 e" by (intro pow2_mono) simp
    with b(1) \<open>\<bar>x\<bar> < pow2 53\<close> show False by (simp add: e_def)
  qed
  from False have "1 \<le> \<bar>n\<bar>" by simp
  then have "(of_int 1 :: rat) \<le> of_int \<bar>n\<bar>" by (simp only: of_int_le_iff)
  then have "pow2 0 \<le> \<bar>x\<bar>" by (simp add: x_def pow2_def)
  have "0 \<le> e"
  proof (rule ccontr)
    assume "\<not> 0 \<le> e"
    then have "pow2 (e + 1) \<le> pow2 0" by (intro pow2_mono) simp
    with b(2) \<open>pow2 0 \<le> \<bar>x\<bar>\<close> show False by (simp add: e_def)
  qed
  define k where "k = nat (52 - e)"
  from \<open>e \<le> 52\<close> have p: "pow2 (e - 52) = 1 / 2 ^ k"
    by (cases "e = 52") (simp_all add: pow2_def k_def)
  have "x / pow2 (e - 52) = of_int (n * 2 ^ k)"
    by (simp add: p x_def)
  then have "rne (x / pow2 (e - 52)) = n * 2 ^ k"
    by (intro rne_eqI) simp
  with x0 have "round53 x = of_int (n * 2 ^ k) * pow2 (e - 52)"
    by (simp add: round53_def e_def)
  then show ?thesis by (simp add: p x_def)
qed

lemma float_of_nat_exact: "n < 2 ^ 53 \<Longrightarrow> float_of_nat n = of_nat n"
proof -
  assume "n < 2 ^ 53"
  then have "int n < 2 ^ 53" by (metis of_nat_less_iff of_nat_numeral of_nat_power)
  then have "round53 (of_int (int n)) = of_int (int n)"
    by (intro round53_of_int) simp
  then show ?thesis by (simp add: float_of_nat_def)
qed

lemma float_of_nat_pos: "0 < n \<Longrightarrow> 0 < float_of_nat n"
  unfolding float_of_nat_def by (rule round53_pos) simp

text \<open>A side of the scaled image: the side \<open>w\<close> of the image times a scale that is at least
  the rounded quotient of the side \<open>P\<close> of the page by \<open>w\<close>.\<close>

lemma scaled_side:
  assumes "0 < w" "0 < P" "fdiv P w \<le> scale"
  shows "P * (1 - 1 / 2 ^ 52) \<le> fmul w scale"
proof -
  let ?u = "(1 - 1 / 2 ^ 53) :: rat"
  have u: "0 < ?u" by simp
  from assms have q: "0 < P / w" by simp
  from round53_ge [OF q] have "P / w * ?u \<le> fdiv P w" by (simp add: fdiv_def)
  with assms(3) have s: "P / w * ?u \<le> scale" by simp
  from q u have "0 < P / w * ?u" by (rule mult_pos_pos)
  with s have sp: "0 < scale" by simp
  with assms(1) have ws: "0 < w * scale" by (rule mult_pos_pos)
  from s assms(1) have "w * (P / w * ?u) \<le> w * scale"
    by (intro mult_left_mono) simp_all
  with assms(1) have "P * ?u \<le> w * scale" by simp
  then have "P * ?u * ?u \<le> w * scale * ?u"
    using u by (intro mult_right_mono) simp_all
  also from round53_ge [OF ws] have "w * scale * ?u \<le> fmul w scale"
    by (simp add: fmul_def)
  finally have "P * ?u * ?u \<le> fmul w scale" .
  moreover have "P * (1 - 1 / 2 ^ 52) \<le> P * ?u * ?u"
  proof -
    have "(1 - 1 / 2 ^ 52 :: rat) \<le> ?u * ?u" by simp
    with assms(2) have "P * (1 - 1 / 2 ^ 52) \<le> P * (?u * ?u)"
      by (intro mult_left_mono) simp_all
    then show ?thesis by (simp add: mult.assoc)
  qed
  ultimately show ?thesis by simp
qed

text \<open>The offset: half the rounded difference, rounded.\<close>

lemma centred_offset:
  "\<bar>fdiv (fsub P n) 2 - (P - n) / 2\<bar> \<le> \<bar>P - n\<bar> / 2 ^ 52"
proof -
  define d where "d = P - n"
  define d' where "d' = round53 d"
  have e1: "\<bar>d' - d\<bar> \<le> \<bar>d\<bar> / 2 ^ 53"
    unfolding d'_def by (rule round53_error)
  then have "\<bar>d'\<bar> \<le> \<bar>d\<bar> + \<bar>d\<bar> / 2 ^ 53" by linarith
  then have d2: "\<bar>d' / 2\<bar> \<le> \<bar>d\<bar>" by simp
  have "\<bar>round53 (d' / 2) - d' / 2\<bar> \<le> \<bar>d' / 2\<bar> / 2 ^ 53"
    by (rule round53_error)
  also from d2 have "\<dots> \<le> \<bar>d\<bar> / 2 ^ 53" by (simp add: divide_right_mono)
  finally have e2: "\<bar>round53 (d' / 2) - d' / 2\<bar> \<le> \<bar>d\<bar> / 2 ^ 53" .
  have "round53 (d' / 2) - d / 2 = (round53 (d' / 2) - d' / 2) + (d' - d) / 2"
    by (simp add: diff_divide_distrib)
  then have "\<bar>round53 (d' / 2) - d / 2\<bar>
      \<le> \<bar>round53 (d' / 2) - d' / 2\<bar> + \<bar>(d' - d) / 2\<bar>"
    by (simp only: abs_triangle_ineq)
  also have "\<bar>(d' - d) / 2\<bar> = \<bar>d' - d\<bar> / 2" by simp
  also have "\<bar>round53 (d' / 2) - d' / 2\<bar> + \<bar>d' - d\<bar> / 2
      \<le> \<bar>d\<bar> / 2 ^ 53 + \<bar>d\<bar> / 2 ^ 53"
  proof (rule add_mono)
    show "\<bar>round53 (d' / 2) - d' / 2\<bar> \<le> \<bar>d\<bar> / 2 ^ 53" by (rule e2)
    have "\<bar>d' - d\<bar> / 2 \<le> \<bar>d' - d\<bar>" by simp
    then show "\<bar>d' - d\<bar> / 2 \<le> \<bar>d\<bar> / 2 ^ 53" using e1 by (rule order_trans)
  qed
  also have "\<dots> = \<bar>d\<bar> / 2 ^ 52" by simp
  finally show ?thesis by (simp add: fdiv_def fsub_def d_def d'_def)
qed

lemma PAGE_pos: "0 < PAGE_WIDTH" "0 < PAGE_HEIGHT"
  by (simp_all add: PAGE_WIDTH_def PAGE_HEIGHT_def)

text \<open>The greater of two rounded numbers is near the greater of the numbers.\<close>

lemma abs_max_diff:
  fixes a b c d :: rat
  shows "\<bar>max c d - max a b\<bar> \<le> max \<bar>c - a\<bar> \<bar>d - b\<bar>"
  by linarith

lemma max_round53:
  assumes "0 < a" "0 < b"
  shows "\<bar>max (round53 a) (round53 b) - max a b\<bar> \<le> max a b / 2 ^ 53"
proof -
  from assms have "\<bar>a\<bar> = a" "\<bar>b\<bar> = b" by simp_all
  with round53_error [of a] round53_error [of b]
  have a: "\<bar>round53 a - a\<bar> \<le> a / 2 ^ 53" and b: "\<bar>round53 b - b\<bar> \<le> b / 2 ^ 53"
    by (simp_all only:)
  have "a / 2 ^ 53 \<le> max a b / 2 ^ 53" "b / 2 ^ 53 \<le> max a b / 2 ^ 53"
    by (simp_all add: divide_right_mono)
  with a b have "\<bar>round53 a - a\<bar> \<le> max a b / 2 ^ 53" "\<bar>round53 b - b\<bar> \<le> max a b / 2 ^ 53"
    by (blast intro: order_trans)+
  then have "max \<bar>round53 a - a\<bar> \<bar>round53 b - b\<bar> \<le> max a b / 2 ^ 53"
    by (rule max.boundedI)
  with abs_max_diff [of "round53 a" "round53 b" a b] show ?thesis
    by (rule order_trans)
qed

text \<open>
  Claim C7, as the code has it. For an image whose sides are positive (and below \<open>2^53\<close>,
  so that \<open>float\<close> of them is exact) the composer computes: as the scale, the greater of
  the two quotients of a side of the page by the side of the image, each rounded to a
  float, which is the greater of the exact quotients up to its \<open>2^53\<close>th part; as the
  sides of the scaled image, the rounded products, which are at least the sides of the
  page less their \<open>2^52\<close>th part; and as the position, on each axis, half the difference
  of the side of the page and the side of the scaled image up to the \<open>2^52\<close>th part of
  that difference.
\<close>

theorem cover_fit_up_to_rounding:
  assumes "0 < img_width" "img_width < 2 ^ 53" "0 < img_height" "img_height < 2 ^ 53"
  shows "\<exists>scale new_width new_height x y.
     cover_fit img_width img_height = Inr (scale, new_width, new_height, x, y) \<and>
     scale = max (round53 (PAGE_WIDTH / of_nat img_width))
                 (round53 (PAGE_HEIGHT / of_nat img_height)) \<and>
     \<bar>scale - max (PAGE_WIDTH / of_nat img_width) (PAGE_HEIGHT / of_nat img_height)\<bar>
       \<le> max (PAGE_WIDTH / of_nat img_width) (PAGE_HEIGHT / of_nat img_height) / 2 ^ 53 \<and>
     new_width = round53 (of_nat img_width * scale) \<and>
     new_height = round53 (of_nat img_height * scale) \<and>
     PAGE_WIDTH * (1 - 1 / 2 ^ 52) \<le> new_width \<and>
     PAGE_HEIGHT * (1 - 1 / 2 ^ 52) \<le> new_height \<and>
     \<bar>x - (PAGE_WIDTH - new_width) / 2\<bar> \<le> \<bar>PAGE_WIDTH - new_width\<bar> / 2 ^ 52 \<and>
     \<bar>y - (PAGE_HEIGHT - new_height) / 2\<bar> \<le> \<bar>PAGE_HEIGHT - new_height\<bar> / 2 ^ 52"
proof -
  let ?w = "of_nat img_width :: rat" and ?h = "of_nat img_height :: rat"
  let ?s = "max (fdiv PAGE_WIDTH ?w) (fdiv PAGE_HEIGHT ?h)"
  from assms have w: "float_of_nat img_width = ?w" and h: "float_of_nat img_height = ?h"
    by (simp_all add: float_of_nat_exact)
  from assms have c: "cover_fit img_width img_height =
      Inr (?s, fmul ?w ?s, fmul ?h ?s, fdiv (fsub PAGE_WIDTH (fmul ?w ?s)) 2,
           fdiv (fsub PAGE_HEIGHT (fmul ?h ?s)) 2)"
    by (simp add: cover_fit_def Let_def w h)
  from assms have wp: "0 < ?w" and hp: "0 < ?h" by simp_all
  have nw: "PAGE_WIDTH * (1 - 1 / 2 ^ 52) \<le> fmul ?w ?s"
    using wp PAGE_pos(1) by (rule scaled_side) simp
  have nh: "PAGE_HEIGHT * (1 - 1 / 2 ^ 52) \<le> fmul ?h ?s"
    using hp PAGE_pos(2) by (rule scaled_side) simp
  from wp hp PAGE_pos have "0 < PAGE_WIDTH / ?w" "0 < PAGE_HEIGHT / ?h"
    by simp_all
  then have sc: "\<bar>?s - max (PAGE_WIDTH / ?w) (PAGE_HEIGHT / ?h)\<bar>
      \<le> max (PAGE_WIDTH / ?w) (PAGE_HEIGHT / ?h) / 2 ^ 53"
    unfolding fdiv_def by (rule max_round53)
  have s: "?s = max (round53 (PAGE_WIDTH / ?w)) (round53 (PAGE_HEIGHT / ?h))"
    by (simp only: fdiv_def)
  have "fmul ?w ?s = round53 (?w * ?s)" "fmul ?h ?s = round53 (?h * ?s)"
    by (simp_all only: fmul_def)
  with c s sc nw nh
    centred_offset [of PAGE_WIDTH "fmul ?w ?s"] centred_offset [of PAGE_HEIGHT "fmul ?h ?s"]
  show ?thesis by blast
qed

theorem cover_fit_up_to_rounding_witness:
  "0 < (800::nat) \<and> (800::nat) < 2 ^ 53 \<and> 0 < (600::nat) \<and> (600::nat) < 2 ^ 53
   \<and> (\<exists>scale new_width new_height x y.
     cover_fit 800 600 = Inr (scale, new_width, new_height, x, y) \<and>
     scale = max (round53 (PAGE_WIDTH / 800)) (round53 (PAGE_HEIGHT / 600)) \<and>
     PAGE_WIDTH * (1 - 1 / 2 ^ 52) \<le> new_width \<and>
     PAGE_HEIGHT * (1 - 1 / 2 ^ 52) \<le> new_height \<and>
     \<bar>x - (PAGE_WIDTH - new_width) / 2\<bar> \<le> \<bar>PAGE_WIDTH - new_width\<bar> / 2 ^ 52 \<and>
     \<bar>y - (PAGE_HEIGHT - new_height) / 2\<bar> \<le> \<bar>PAGE_HEIGHT - new_height\<bar> / 2 ^ 52)"
proof -
  have h: "0 < (800::nat)" "(800::nat) < 2 ^ 53" "0 < (600::nat)" "(600::nat) < 2 ^ 53"
    by simp_all
  from cover_fit_up_to_rounding [OF h] obtain scale new_width new_height x y where
    "cover_fit 800 600 = Inr (scale, new_width, new_height, x, y)"
    "scale = max (round53 (PAGE_WIDTH / of_nat 800)) (round53 (PAGE_HEIGHT / of_nat 600))"
    "PAGE_WIDTH * (1 - 1 / 2 ^ 52) \<le> new_width"
    "PAGE_HEIGHT * (1 - 1 / 2 ^ 52) \<le> new_height"
    "\<bar>x - (PAGE_WIDTH - new_width) / 2\<bar> \<le> \<bar>PAGE_WIDTH - new_width\<bar> / 2 ^ 52"
    "\<bar>y - (PAGE_HEIGHT - new_height) / 2\<bar> \<le> \<bar>PAGE_HEIGHT - new_height\<bar> / 2 ^ 52"
    by blast
  moreover have "(of_nat 800 :: rat) = 800" "(of_nat 600 :: rat) = 600" by simp_all
  ultimately show ?thesis using h by (metis (no_types))
qed

lemma round53_at:
  assumes "pow2 e \<le> \<bar>x\<bar>" "\<bar>x\<bar> < pow2 (e + 1)"
    and "\<bar>x / pow2 (e - 52) - of_int n\<bar> < 1 / 2" and "r = of_int n * pow2 (e - 52)"
  shows "round53 x = r"
  using round53_eval [OF assms(1-3)] assms(4) by simp

text \<open>
  Claim C7 as stated fails for an image of 69 by 99: the scale is the rounded quotient of
  the widths, and 69 times it, rounded, is the float next below the width of the page.
  The scaled image is narrower than the page, and it is drawn \<open>2^-44\<close> to the right of the
  left edge of the page.
\<close>

theorem cover_fit_short_counterexample:
  "cover_fit 69 99 =
     Inr (4856671970632339 / 2 ^ 49, PAGE_WIDTH - 1 / 2 ^ 43, 7512664454571899 / 2 ^ 43,
          1 / 2 ^ 44, - 53661888961227 / 2 ^ 43)
   \<and> PAGE_WIDTH - 1 / 2 ^ 43 < PAGE_WIDTH \<and> (0::rat) < 1 / 2 ^ 44"
proof -
  have w: "float_of_nat 69 = 69" and h: "float_of_nat 99 = 99"
    using float_of_nat_exact [of 69] float_of_nat_exact [of 99] by simp_all
  have sw: "fdiv PAGE_WIDTH 69 = 4856671970632339 / 2 ^ 49"
    unfolding fdiv_def
    by (rule round53_at [where e = 3 and n = 4856671970632339])
      (simp_all add: PAGE_WIDTH_def pow2_def)
  have sh: "fdiv PAGE_HEIGHT 99 = 4787290942480449 / 2 ^ 49"
    unfolding fdiv_def
    by (rule round53_at [where e = 3 and n = 4787290942480449])
      (simp_all add: PAGE_HEIGHT_def pow2_def)
  have s: "max (fdiv PAGE_WIDTH 69) (fdiv PAGE_HEIGHT 99) = 4856671970632339 / 2 ^ 49"
    unfolding sw sh by simp
  have nw: "fmul 69 (4856671970632339 / 2 ^ 49) = PAGE_WIDTH - 1 / 2 ^ 43"
    unfolding fmul_def
    by (rule round53_at [where e = 9 and n = 5236099468337990])
      (simp_all add: PAGE_WIDTH_def pow2_def)
  have nh: "fmul 99 (4856671970632339 / 2 ^ 49) = 7512664454571899 / 2 ^ 43"
    unfolding fmul_def
    by (rule round53_at [where e = 9 and n = 7512664454571899])
      (simp_all add: pow2_def)
  have dw: "fsub PAGE_WIDTH (PAGE_WIDTH - 1 / 2 ^ 43) = 1 / 2 ^ 43"
    unfolding fsub_def
    by (rule round53_at [where e = "- 43" and n = "2 ^ 52"])
      (simp_all add: pow2_def)
  have x: "fdiv (1 / 2 ^ 43) 2 = 1 / 2 ^ 44"
    unfolding fdiv_def
    by (rule round53_at [where e = "- 44" and n = "2 ^ 52"])
      (simp_all add: pow2_def)
  have dh: "fsub PAGE_HEIGHT (7512664454571899 / 2 ^ 43) = - 53661888961227 / 2 ^ 42"
    unfolding fsub_def
    by (rule round53_at [where e = 3 and n = "- 6868721787037056"])
      (simp_all add: PAGE_HEIGHT_def pow2_def)
  have y: "fdiv (- 53661888961227 / 2 ^ 42) 2 = - 53661888961227 / 2 ^ 43"
    unfolding fdiv_def
    by (rule round53_at [where e = 2 and n = "- 6868721787037056"])
      (simp_all add: pow2_def)
  have "cover_fit 69 99 =
     Inr (4856671970632339 / 2 ^ 49, PAGE_WIDTH - 1 / 2 ^ 43, 7512664454571899 / 2 ^ 43,
          1 / 2 ^ 44, - 53661888961227 / 2 ^ 43)"
    unfolding cover_fit_def Let_def w h s nw nh dw x dh y by simp
  then show ?thesis by simp
qed

end
